theory Spec2Isabelle
  imports Main "HOL-Library.Extended_Nat" "HOL-Library.AList" "HOL-Library.Word"
begin

section \<open>Common types\<close>

text \<open>
  The buffer pool of BusTub: \<^verbatim>\<open>src/buffer/lru_k_replacer.cpp\<close>,
  \<^verbatim>\<open>src/buffer/buffer_pool_manager.cpp\<close> and \<^verbatim>\<open>src/storage/page/page_guard.cpp\<close>.
  Members keep their names without the trailing underscore (\<^verbatim>\<open>page_table_\<close> is
  \<open>page_table\<close>).  The class declarations live in headers outside these three files,
  so member types are read off their uses.  Frame and page identifiers are signed
  (\<^verbatim>\<open>frame_id < 0\<close> is tested, \<^verbatim>\<open>max_frame_id = -1\<close>); they are modelled as
  integers, timestamps and sizes (\<^verbatim>\<open>size_t\<close>) as naturals.  \<^verbatim>\<open>page_id_t\<close> is a signed
  32-bit integer and \<^verbatim>\<open>next_page_id_\<close> an atomic counter of that type, so that
  \<^verbatim>\<open>next_page_id_++\<close> wraps from \<open>2\<^sup>3\<^sup>1 - 1\<close> to \<open>- 2\<^sup>3\<^sup>1\<close>; the wrap is written out in
  \<open>AllocatePage\<close> below.
\<close>

type_synonym frame_id_t = int
type_synonym page_id_t = int

text \<open>
  What the C++ can do besides returning: throw \<^verbatim>\<open>Exception(msg)\<close>, read the front or
  back of an empty \<^verbatim>\<open>std::list\<close>, call a member through a null pointer, or wait for a
  latch that the only thread there is already holds.
\<close>

datatype error =
    Exception string
  | EmptyListAccess
  | NullPointerDereference
  | LatchWouldBlock

section \<open>LRU-K replacer\<close>

text \<open>
  \<^verbatim>\<open>node_store_[fid].history_\<close> is the list of retained timestamps of a frame, oldest
  first; a node that was never touched has the empty history.  \<^verbatim>\<open>evictable_\<close> is a set
  container that \<^verbatim>\<open>Evict\<close> iterates over; the list gives the order of that iteration
  and holds every member once.
\<close>

record LRUKReplacer =
  node_store :: "frame_id_t \<Rightarrow> nat list"
  current_timestamp :: nat
  evictable :: "frame_id_t list"
  replacer_size :: nat
  lru_k :: nat

definition LRUKReplacer_new :: "nat \<Rightarrow> nat \<Rightarrow> LRUKReplacer" where
  "LRUKReplacer_new num_frames k =
     \<lparr> node_store = (\<lambda>_. []), current_timestamp = 0, evictable = [],
       replacer_size = num_frames, lru_k = k \<rparr>"

text \<open>
  The loop of \<^verbatim>\<open>Evict\<close>.  The accumulator is \<^verbatim>\<open>found\<close> together with
  \<^verbatim>\<open>(max_frame_id, max_k_distance, lru_timestamp)\<close>.  The constant \<^verbatim>\<open>INF\<close> is declared
  in the replacer's header; following the specification it is \<open>\<infinity>\<close>, above every
  difference of two timestamps.  \<^verbatim>\<open>history_.front()\<close> of an empty list is undefined
  behaviour; every path through the loop body reaches it (or \<^verbatim>\<open>back()\<close>) when the
  history is empty, which the model reports as \<^const>\<open>EmptyListAccess\<close>.
\<close>

fun Evict_loop ::
  "LRUKReplacer \<Rightarrow> frame_id_t list \<Rightarrow> (frame_id_t \<times> enat \<times> nat) option
     \<Rightarrow> error + (frame_id_t \<times> enat \<times> nat) option" where
  "Evict_loop r [] best = Inr best"
| "Evict_loop r (evictable_fid # rest) best =
     (let history = node_store r evictable_fid in
      if history = [] then Inl EmptyListAccess
      else
        let k_distance = (if length history < lru_k r then \<infinity>
                          else enat (last history - hd history)) in
        if (case best of
              None \<Rightarrow> True
            | Some (max_frame_id, max_k_distance, lru_timestamp) \<Rightarrow>
                max_k_distance < k_distance \<or>
                (k_distance = max_k_distance \<and> hd history < lru_timestamp))
        then Evict_loop r rest (Some (evictable_fid, k_distance, hd history))
        else Evict_loop r rest best)"

definition Evict :: "LRUKReplacer \<Rightarrow> error + (frame_id_t option \<times> LRUKReplacer)" where
  "Evict r =
     (case Evict_loop r (evictable r) None of
        Inl e \<Rightarrow> Inl e
      | Inr None \<Rightarrow> Inr (None, r)
      | Inr (Some (max_frame_id, _, _)) \<Rightarrow>
          Inr (Some max_frame_id,
               r\<lparr> node_store := (node_store r)(max_frame_id := []),
                  evictable := removeAll max_frame_id (evictable r) \<rparr>))"

definition RecordAccess :: "frame_id_t \<Rightarrow> LRUKReplacer \<Rightarrow> error + LRUKReplacer" where
  "RecordAccess frame_id r =
     (if frame_id < 0 \<or> frame_id \<ge> int (replacer_size r)
      then Inl (Exception ''Invalid frame ID'')
      else
        let pushed = node_store r frame_id @ [current_timestamp r];
            history = (if length pushed > lru_k r then tl pushed else pushed)
        in Inr (r\<lparr> node_store := (node_store r)(frame_id := history),
                   current_timestamp := current_timestamp r + 1 \<rparr>))"

definition SetEvictable :: "frame_id_t \<Rightarrow> bool \<Rightarrow> LRUKReplacer \<Rightarrow> error + LRUKReplacer" where
  "SetEvictable frame_id set_evictable r =
     (if frame_id < 0 \<or> frame_id \<ge> int (replacer_size r)
      then Inl (Exception ''Invalid frame ID'')
      else
        let is_evictable = (frame_id \<in> set (evictable r));
            r1 = (if is_evictable \<and> \<not> set_evictable
                  then r\<lparr> evictable := removeAll frame_id (evictable r) \<rparr> else r);
            r2 = (if \<not> is_evictable \<and> set_evictable
                  then r1\<lparr> evictable := evictable r1 @ [frame_id] \<rparr> else r1)
        in Inr r2)"

definition Remove :: "frame_id_t \<Rightarrow> LRUKReplacer \<Rightarrow> LRUKReplacer" where
  "Remove frame_id r =
     (if frame_id \<notin> set (evictable r) then r
      else r\<lparr> node_store := (node_store r)(frame_id := []) \<rparr>)"


text \<open>A client of the replacer alone: any sequence of calls on a fresh replacer.\<close>

datatype replacer_call =
    CallEvict
  | CallRecordAccess frame_id_t
  | CallSetEvictable frame_id_t bool
  | CallRemove frame_id_t

fun replacer_step :: "replacer_call \<Rightarrow> LRUKReplacer \<Rightarrow> error + LRUKReplacer" where
  "replacer_step CallEvict r = (case Evict r of Inl e \<Rightarrow> Inl e | Inr (_, r') \<Rightarrow> Inr r')"
| "replacer_step (CallRecordAccess f) r = RecordAccess f r"
| "replacer_step (CallSetEvictable f b) r = SetEvictable f b r"
| "replacer_step (CallRemove f) r = Inr (Remove f r)"

fun replacer_calls :: "replacer_call list \<Rightarrow> LRUKReplacer \<Rightarrow> error + LRUKReplacer" where
  "replacer_calls [] r = Inr r"
| "replacer_calls (c # cs) r =
     (case replacer_step c r of Inl e \<Rightarrow> Inl e | Inr r' \<Rightarrow> replacer_calls cs r')"

text \<open>
  The specification's backward K-distance of a frame, and its order of preference between
  two candidates: \<open>v\<close> is preferred to \<open>g\<close> when its distance is greater, or when the
  distances are equal and its oldest retained timestamp is not the later one.
\<close>

definition backward_k_distance :: "LRUKReplacer \<Rightarrow> frame_id_t \<Rightarrow> enat" where
  "backward_k_distance r f =
     (if length (node_store r f) < lru_k r then \<infinity>
      else enat (last (node_store r f) - hd (node_store r f)))"

definition oldest_timestamp :: "LRUKReplacer \<Rightarrow> frame_id_t \<Rightarrow> nat" where
  "oldest_timestamp r f = hd (node_store r f)"

definition preferred_to :: "LRUKReplacer \<Rightarrow> frame_id_t \<Rightarrow> frame_id_t \<Rightarrow> bool" where
  "preferred_to r v g \<longleftrightarrow>
     backward_k_distance r g < backward_k_distance r v \<or>
     (backward_k_distance r g = backward_k_distance r v \<and>
      oldest_timestamp r v \<le> oldest_timestamp r g)"


section \<open>Pages and the disk\<close>

text \<open>
  Modelled from the spec: the page object and the disk manager, whose code is outside these
  files.  A page frame has the attributes of section 3 of the specification: data, owning
  page id, pin count, dirty flag and a readers-writer latch; a fresh frame holds no page,
  is unpinned and clean.  \<^verbatim>\<open>ResetMemory\<close> zeroes the data and nothing else.  The latch
  is the number of shared holders and the presence of an exclusive holder; with one thread
  of control, acquiring a latch that cannot be granted never returns.
\<close>

type_synonym page_data = "8 word list"

definition BUSTUB_PAGE_SIZE :: nat where
  "BUSTUB_PAGE_SIZE = 4096"

definition INVALID_PAGE_ID :: page_id_t where
  "INVALID_PAGE_ID = -1"

record Page =
  data :: page_data
  page_id :: page_id_t
  pin_count :: int
  is_dirty :: bool
  latch_readers :: nat
  latch_writer :: bool

definition Page_new :: Page where
  "Page_new = \<lparr> data = replicate BUSTUB_PAGE_SIZE 0, page_id = INVALID_PAGE_ID,
                pin_count = 0, is_dirty = False, latch_readers = 0, latch_writer = False \<rparr>"

definition ResetMemory :: "Page \<Rightarrow> Page" where
  "ResetMemory pg = pg\<lparr> data := replicate BUSTUB_PAGE_SIZE 0 \<rparr>"

definition RLatch :: "Page \<Rightarrow> error + Page" where
  "RLatch pg = (if latch_writer pg then Inl LatchWouldBlock
                else Inr (pg\<lparr> latch_readers := latch_readers pg + 1 \<rparr>))"

definition WLatch :: "Page \<Rightarrow> error + Page" where
  "WLatch pg = (if latch_writer pg \<or> latch_readers pg > 0 then Inl LatchWouldBlock
                else Inr (pg\<lparr> latch_writer := True \<rparr>))"

definition RUnlatch :: "Page \<Rightarrow> Page" where
  "RUnlatch pg = pg\<lparr> latch_readers := latch_readers pg - 1 \<rparr>"

definition WUnlatch :: "Page \<Rightarrow> Page" where
  "WUnlatch pg = pg\<lparr> latch_writer := False \<rparr>"

text \<open>
  Modelled from the spec: the disk manager is the sequence of \<^verbatim>\<open>WritePage\<close> calls it
  has received, oldest first.  \<^verbatim>\<open>ReadPage\<close> returns what was last written for the
  page, and zeroes for a page never written (section 8, scenario 5).
\<close>

type_synonym DiskManager = "(page_id_t \<times> page_data) list"

definition WritePage :: "page_id_t \<Rightarrow> page_data \<Rightarrow> DiskManager \<Rightarrow> DiskManager" where
  "WritePage pid bytes disk = disk @ [(pid, bytes)]"

definition ReadPage :: "page_id_t \<Rightarrow> DiskManager \<Rightarrow> page_data" where
  "ReadPage pid disk =
     (case map_of (rev disk) pid of
        None \<Rightarrow> replicate BUSTUB_PAGE_SIZE 0
      | Some bytes \<Rightarrow> bytes)"

section \<open>Buffer pool manager\<close>

text \<open>
  \<^verbatim>\<open>page_table_\<close> is an association list with one entry per key: looked up with
  \<^const>\<open>map_of\<close>, assigned with \<^const>\<open>AList.update\<close>, erased with \<^const>\<open>AList.delete\<close>,
  and iterated over by \<^verbatim>\<open>FlushAllPages\<close>.  \<^verbatim>\<open>pages_[f]\<close> is \<open>pages bpm ! nat f\<close>;
  every frame id the manager indexes with is below \<open>pool_size\<close> (the invariant \<open>bpm_inv\<close>
  below).
\<close>

record BufferPoolManager =
  pool_size :: nat
  pages :: "Page list"
  page_table :: "(page_id_t \<times> frame_id_t) list"
  free_list :: "frame_id_t list"
  replacer :: LRUKReplacer
  next_page_id :: page_id_t
  disk_manager :: DiskManager

definition BufferPoolManager_new :: "nat \<Rightarrow> DiskManager \<Rightarrow> nat \<Rightarrow> BufferPoolManager" where
  "BufferPoolManager_new n disk replacer_k =
     \<lparr> pool_size = n,
       pages = replicate n Page_new,
       page_table = [],
       free_list = map int [0..<n],
       replacer = LRUKReplacer_new n replacer_k,
       next_page_id = 0,
       disk_manager = disk \<rparr>"

definition FindAndEvictFrame ::
  "BufferPoolManager \<Rightarrow> error + (frame_id_t option \<times> BufferPoolManager)" where
  "FindAndEvictFrame bpm =
     (case free_list bpm of
        frame_id # rest \<Rightarrow> Inr (Some frame_id, bpm\<lparr> free_list := rest \<rparr>)
      | [] \<Rightarrow>
          (case Evict (replacer bpm) of
             Inl e \<Rightarrow> Inl e
           | Inr (None, _) \<Rightarrow> Inr (None, bpm)
           | Inr (Some frame_id, r') \<Rightarrow>
               let frame = pages bpm ! nat frame_id;
                   table' = AList.delete (page_id frame) (page_table bpm);
                   disk' = (if is_dirty frame
                            then WritePage (page_id frame) (data frame) (disk_manager bpm)
                            else disk_manager bpm);
                   frame1 = (if is_dirty frame then frame\<lparr> is_dirty := False \<rparr> else frame);
                   frame2 = ResetMemory (frame1\<lparr> page_id := INVALID_PAGE_ID \<rparr>)
               in Inr (Some frame_id,
                       bpm\<lparr> replacer := r', page_table := table', disk_manager := disk',
                            pages := (pages bpm)[nat frame_id := frame2] \<rparr>)))"

text \<open>
  \<^verbatim>\<open>next_page_id_++\<close> on the 32-bit counter: \<open>wrap_page_id\<close> brings an integer back into
  \<open>[- 2\<^sup>3\<^sup>1, 2\<^sup>3\<^sup>1)\<close>, so the successor of 2147483647 is -2147483648.
\<close>

definition wrap_page_id :: "int \<Rightarrow> page_id_t" where
  "wrap_page_id x = (x + 2147483648) mod 4294967296 - 2147483648"

definition AllocatePage :: "BufferPoolManager \<Rightarrow> page_id_t \<times> BufferPoolManager" where
  "AllocatePage bpm =
     (next_page_id bpm, bpm\<lparr> next_page_id := wrap_page_id (next_page_id bpm + 1) \<rparr>)"

definition NewPage ::
  "BufferPoolManager \<Rightarrow> error + ((page_id_t \<times> frame_id_t) option \<times> BufferPoolManager)" where
  "NewPage bpm =
     (case FindAndEvictFrame bpm of
        Inl e \<Rightarrow> Inl e
      | Inr (None, bpm1) \<Rightarrow> Inr (None, bpm1)
      | Inr (Some frame_id, bpm1) \<Rightarrow>
          (case SetEvictable frame_id False (replacer bpm1) of
             Inl e \<Rightarrow> Inl e
           | Inr r1 \<Rightarrow>
               (case RecordAccess frame_id r1 of
                  Inl e \<Rightarrow> Inl e
                | Inr r2 \<Rightarrow>
                    let (new_page_id, bpm2) = AllocatePage (bpm1\<lparr> replacer := r2 \<rparr>);
                        pg = (pages bpm2 ! nat frame_id)
                               \<lparr> page_id := new_page_id, pin_count := 1 \<rparr>
                    in Inr (Some (new_page_id, frame_id),
                            bpm2\<lparr> page_table := AList.update new_page_id frame_id (page_table bpm2),
                                  pages := (pages bpm2)[nat frame_id := ResetMemory pg] \<rparr>))))"

text \<open>
  The tail of \<^verbatim>\<open>FetchPage\<close> that both branches share; \<open>frame_id\<close> is
  \<^verbatim>\<open>page_table_[page_id]\<close>, which exists on both paths.
\<close>

definition FetchPage_pin ::
  "frame_id_t \<Rightarrow> BufferPoolManager \<Rightarrow> error + (frame_id_t option \<times> BufferPoolManager)" where
  "FetchPage_pin frame_id bpm =
     (let pg = pages bpm ! nat frame_id;
          bpm1 = bpm\<lparr> pages := (pages bpm)[nat frame_id := pg\<lparr> pin_count := pin_count pg + 1 \<rparr>] \<rparr>
      in case SetEvictable frame_id False (replacer bpm1) of
           Inl e \<Rightarrow> Inl e
         | Inr r1 \<Rightarrow>
             (case RecordAccess frame_id r1 of
                Inl e \<Rightarrow> Inl e
              | Inr r2 \<Rightarrow> Inr (Some frame_id, bpm1\<lparr> replacer := r2 \<rparr>)))"

definition FetchPage ::
  "page_id_t \<Rightarrow> BufferPoolManager \<Rightarrow> error + (frame_id_t option \<times> BufferPoolManager)" where
  "FetchPage pid bpm =
     (case map_of (page_table bpm) pid of
        Some frame_id \<Rightarrow> FetchPage_pin frame_id bpm
      | None \<Rightarrow>
          (case FindAndEvictFrame bpm of
             Inl e \<Rightarrow> Inl e
           | Inr (None, bpm1) \<Rightarrow> Inr (None, bpm1)
           | Inr (Some frame_id, bpm1) \<Rightarrow>
               let pg = (pages bpm1 ! nat frame_id)
                          \<lparr> data := ReadPage pid (disk_manager bpm1),
                            page_id := pid, pin_count := 0 \<rparr>
               in FetchPage_pin frame_id
                    (bpm1\<lparr> pages := (pages bpm1)[nat frame_id := pg],
                           page_table := AList.update pid frame_id (page_table bpm1) \<rparr>)))"

definition UnpinPage ::
  "page_id_t \<Rightarrow> bool \<Rightarrow> BufferPoolManager \<Rightarrow> error + (bool \<times> BufferPoolManager)" where
  "UnpinPage pid dirty bpm =
     (case map_of (page_table bpm) pid of
        None \<Rightarrow> Inr (False, bpm)
      | Some frame_id \<Rightarrow>
          let pg = pages bpm ! nat frame_id in
          if pin_count pg = 0 then Inr (False, bpm)
          else
            let pg1 = (if dirty then pg\<lparr> is_dirty := True \<rparr> else pg);
                pg2 = pg1\<lparr> pin_count := pin_count pg1 - 1 \<rparr>;
                bpm1 = bpm\<lparr> pages := (pages bpm)[nat frame_id := pg2] \<rparr>
            in if pin_count pg2 = 0
               then (case SetEvictable frame_id True (replacer bpm1) of
                       Inl e \<Rightarrow> Inl e
                     | Inr r' \<Rightarrow> Inr (True, bpm1\<lparr> replacer := r' \<rparr>))
               else Inr (True, bpm1))"

definition FlushPage :: "page_id_t \<Rightarrow> BufferPoolManager \<Rightarrow> bool \<times> BufferPoolManager" where
  "FlushPage pid bpm =
     (case map_of (page_table bpm) pid of
        None \<Rightarrow> (False, bpm)
      | Some frame_id \<Rightarrow>
          let pg = pages bpm ! nat frame_id
          in (True, bpm\<lparr> disk_manager := WritePage pid (data pg) (disk_manager bpm),
                         pages := (pages bpm)[nat frame_id := pg\<lparr> is_dirty := False \<rparr>] \<rparr>))"

definition FlushAllPages_body ::
  "page_id_t \<times> frame_id_t \<Rightarrow> BufferPoolManager \<Rightarrow> BufferPoolManager" where
  "FlushAllPages_body entry bpm =
     (case entry of (pid, frame_id) \<Rightarrow>
        let pg = pages bpm ! nat frame_id
        in bpm\<lparr> disk_manager := WritePage pid (data pg) (disk_manager bpm),
                pages := (pages bpm)[nat frame_id := pg\<lparr> is_dirty := False \<rparr>] \<rparr>)"

definition FlushAllPages :: "BufferPoolManager \<Rightarrow> BufferPoolManager" where
  "FlushAllPages bpm = fold FlushAllPages_body (page_table bpm) bpm"

text \<open>\<^verbatim>\<open>DeallocatePage\<close> does nothing (the specification: a notification only).\<close>

definition DeletePage :: "page_id_t \<Rightarrow> BufferPoolManager \<Rightarrow> bool \<times> BufferPoolManager" where
  "DeletePage pid bpm =
     (case map_of (page_table bpm) pid of
        None \<Rightarrow> (True, bpm)
      | Some frame_id \<Rightarrow>
          let pg = pages bpm ! nat frame_id in
          if pin_count pg \<ge> 1 then (False, bpm)
          else
            let disk' = (if is_dirty pg then WritePage pid (data pg) (disk_manager bpm)
                         else disk_manager bpm);
                pg1 = (if is_dirty pg then pg\<lparr> is_dirty := False \<rparr> else pg)
            in (True,
                bpm\<lparr> disk_manager := disk',
                     page_table := AList.delete pid (page_table bpm),
                     pages := (pages bpm)[nat frame_id := ResetMemory pg1],
                     replacer := Remove frame_id (replacer bpm),
                     free_list := free_list bpm @ [frame_id] \<rparr>))"


text \<open>
  Between two calls, a caller that holds the pointer returned by \<^verbatim>\<open>FetchPage\<close> or
  \<^verbatim>\<open>NewPage\<close> may overwrite the bytes of the page through \<^verbatim>\<open>GetData()\<close>.  The manager
  takes no part in that; the dirty flag is only reported later, by \<^verbatim>\<open>UnpinPage\<close>.
\<close>

definition CallerWritesData ::
  "page_id_t \<Rightarrow> page_data \<Rightarrow> BufferPoolManager \<Rightarrow> BufferPoolManager" where
  "CallerWritesData pid bytes bpm =
     (case map_of (page_table bpm) pid of
        None \<Rightarrow> bpm
      | Some frame_id \<Rightarrow>
          bpm\<lparr> pages := (pages bpm)[nat frame_id := (pages bpm ! nat frame_id)\<lparr> data := bytes \<rparr>] \<rparr>)"

text \<open>A client of the manager: any sequence of calls on a fresh pool.\<close>

datatype bpm_call =
    CallNewPage
  | CallFetchPage page_id_t
  | CallUnpinPage page_id_t bool
  | CallFlushPage page_id_t
  | CallFlushAllPages
  | CallDeletePage page_id_t
  | CallerWrites page_id_t page_data

datatype bpm_return =
    NewPageReturned "(page_id_t \<times> frame_id_t) option"
  | FetchPageReturned "frame_id_t option"
  | BoolReturned bool
  | Returned

fun bpm_step :: "bpm_call \<Rightarrow> BufferPoolManager \<Rightarrow> error + (bpm_return \<times> BufferPoolManager)" where
  "bpm_step CallNewPage bpm =
     (case NewPage bpm of Inl e \<Rightarrow> Inl e | Inr (res, bpm') \<Rightarrow> Inr (NewPageReturned res, bpm'))"
| "bpm_step (CallFetchPage pid) bpm =
     (case FetchPage pid bpm of Inl e \<Rightarrow> Inl e | Inr (res, bpm') \<Rightarrow> Inr (FetchPageReturned res, bpm'))"
| "bpm_step (CallUnpinPage pid dirty) bpm =
     (case UnpinPage pid dirty bpm of Inl e \<Rightarrow> Inl e | Inr (res, bpm') \<Rightarrow> Inr (BoolReturned res, bpm'))"
| "bpm_step (CallFlushPage pid) bpm =
     (case FlushPage pid bpm of (res, bpm') \<Rightarrow> Inr (BoolReturned res, bpm'))"
| "bpm_step CallFlushAllPages bpm = Inr (Returned, FlushAllPages bpm)"
| "bpm_step (CallDeletePage pid) bpm =
     (case DeletePage pid bpm of (res, bpm') \<Rightarrow> Inr (BoolReturned res, bpm'))"
| "bpm_step (CallerWrites pid bytes) bpm = Inr (Returned, CallerWritesData pid bytes bpm)"

fun bpm_run ::
  "bpm_call list \<Rightarrow> BufferPoolManager \<Rightarrow> error + (bpm_return list \<times> BufferPoolManager)" where
  "bpm_run [] bpm = Inr ([], bpm)"
| "bpm_run (c # cs) bpm =
     (case bpm_step c bpm of
        Inl e \<Rightarrow> Inl e
      | Inr (res, bpm') \<Rightarrow>
          (case bpm_run cs bpm' of
             Inl e \<Rightarrow> Inl e
           | Inr (ress, bpm'') \<Rightarrow> Inr (res # ress, bpm'')))"

section \<open>Page guards\<close>

text \<open>
  A guard's \<^verbatim>\<open>page_\<close> points at a frame of the pool or is null; its \<^verbatim>\<open>bpm_\<close> points at
  the manager (\<open>True\<close>) or is null.  A guard built by the manager as \<^verbatim>\<open>{this, page}\<close>
  has the manager, the page and a clear dirty flag; a default-constructed one has null
  pointers.  A read or write guard wraps a basic guard (\<^verbatim>\<open>guard_\<close>).
\<close>

record BasicPageGuard =
  guard_bpm :: bool
  guard_page :: "frame_id_t option"
  guard_is_dirty :: bool

datatype ReadPageGuard = ReadPageGuard BasicPageGuard

datatype WritePageGuard = WritePageGuard BasicPageGuard

definition BasicPageGuard_new :: "frame_id_t option \<Rightarrow> BasicPageGuard" where
  "BasicPageGuard_new pg = \<lparr> guard_bpm = True, guard_page = pg, guard_is_dirty = False \<rparr>"

definition BasicPageGuard_default :: BasicPageGuard where
  "BasicPageGuard_default = \<lparr> guard_bpm = False, guard_page = None, guard_is_dirty = False \<rparr>"

text \<open>The move constructor: the new guard and what is left of \<open>that\<close>.\<close>

definition BasicPageGuard_move :: "BasicPageGuard \<Rightarrow> BasicPageGuard \<times> BasicPageGuard" where
  "BasicPageGuard_move that =
     (that,
      \<lparr> guard_bpm = guard_bpm BasicPageGuard_default,
        guard_page = None,
        guard_is_dirty = guard_is_dirty BasicPageGuard_default \<rparr>)"

definition BasicPageGuard_Drop ::
  "BasicPageGuard \<Rightarrow> BufferPoolManager \<Rightarrow> error + (BasicPageGuard \<times> BufferPoolManager)" where
  "BasicPageGuard_Drop g bpm =
     (case guard_page g of
        None \<Rightarrow> Inr (g, bpm)
      | Some frame_id \<Rightarrow>
          if \<not> guard_bpm g then Inl NullPointerDereference
          else
            (case UnpinPage (page_id (pages bpm ! nat frame_id)) (guard_is_dirty g) bpm of
               Inl e \<Rightarrow> Inl e
             | Inr (_, bpm') \<Rightarrow> Inr (g\<lparr> guard_page := None \<rparr>, bpm')))"

text \<open>
  Move assignment \<^verbatim>\<open>this = std::move(that)\<close>: returns the new \<open>this\<close>, the new
  \<open>that\<close> and the manager.
\<close>

definition BasicPageGuard_assign ::
  "BasicPageGuard \<Rightarrow> BasicPageGuard \<Rightarrow> BufferPoolManager
     \<Rightarrow> error + (BasicPageGuard \<times> BasicPageGuard \<times> BufferPoolManager)" where
  "BasicPageGuard_assign this that bpm =
     (case BasicPageGuard_Drop this bpm of
        Inl e \<Rightarrow> Inl e
      | Inr (this1, bpm') \<Rightarrow>
          Inr (this1\<lparr> guard_page := guard_page that, guard_bpm := guard_bpm that,
                      guard_is_dirty := guard_is_dirty that \<rparr>,
               that\<lparr> guard_page := guard_page this1, guard_bpm := guard_bpm this1,
                     guard_is_dirty := guard_is_dirty this1 \<rparr>,
               bpm'))"

definition ReadPageGuard_assign ::
  "ReadPageGuard \<Rightarrow> ReadPageGuard \<Rightarrow> BufferPoolManager
     \<Rightarrow> error + (ReadPageGuard \<times> ReadPageGuard \<times> BufferPoolManager)" where
  "ReadPageGuard_assign this that bpm =
     (case (this, that) of (ReadPageGuard g, ReadPageGuard that_g) \<Rightarrow>
        (case BasicPageGuard_assign g that_g bpm of
           Inl e \<Rightarrow> Inl e
         | Inr (g', that_g', bpm') \<Rightarrow> Inr (ReadPageGuard g', ReadPageGuard that_g', bpm')))"

definition ReadPageGuard_Drop ::
  "ReadPageGuard \<Rightarrow> BufferPoolManager \<Rightarrow> error + (ReadPageGuard \<times> BufferPoolManager)" where
  "ReadPageGuard_Drop this bpm =
     (case this of ReadPageGuard g \<Rightarrow>
        (case guard_page g of
           None \<Rightarrow> Inr (this, bpm)
         | Some frame_id \<Rightarrow>
             let bpm1 = bpm\<lparr> pages := (pages bpm)[nat frame_id := RUnlatch (pages bpm ! nat frame_id)] \<rparr>
             in (case BasicPageGuard_Drop g bpm1 of
                   Inl e \<Rightarrow> Inl e
                 | Inr (g', bpm') \<Rightarrow> Inr (ReadPageGuard g', bpm'))))"

definition WritePageGuard_assign ::
  "WritePageGuard \<Rightarrow> WritePageGuard \<Rightarrow> BufferPoolManager
     \<Rightarrow> error + (WritePageGuard \<times> WritePageGuard \<times> BufferPoolManager)" where
  "WritePageGuard_assign this that bpm =
     (case (this, that) of (WritePageGuard g, WritePageGuard that_g) \<Rightarrow>
        (case BasicPageGuard_assign g that_g bpm of
           Inl e \<Rightarrow> Inl e
         | Inr (g', that_g', bpm') \<Rightarrow> Inr (WritePageGuard g', WritePageGuard that_g', bpm')))"

definition WritePageGuard_Drop ::
  "WritePageGuard \<Rightarrow> BufferPoolManager \<Rightarrow> error + (WritePageGuard \<times> BufferPoolManager)" where
  "WritePageGuard_Drop this bpm =
     (case this of WritePageGuard g \<Rightarrow>
        (case guard_page g of
           None \<Rightarrow> Inr (this, bpm)
         | Some frame_id \<Rightarrow>
             let bpm1 = bpm\<lparr> pages := (pages bpm)[nat frame_id := WUnlatch (pages bpm ! nat frame_id)] \<rparr>
             in (case BasicPageGuard_Drop g bpm1 of
                   Inl e \<Rightarrow> Inl e
                 | Inr (g', bpm') \<Rightarrow> Inr (WritePageGuard g', bpm'))))"

text \<open>
  The guarded entry points of the manager.  \<^verbatim>\<open>page->RLatch()\<close> and \<^verbatim>\<open>page->WLatch()\<close>
  are member calls through the pointer that \<^verbatim>\<open>FetchPage\<close> returned.
\<close>

definition FetchPageBasic ::
  "page_id_t \<Rightarrow> BufferPoolManager \<Rightarrow> error + (BasicPageGuard \<times> BufferPoolManager)" where
  "FetchPageBasic pid bpm =
     (case FetchPage pid bpm of
        Inl e \<Rightarrow> Inl e
      | Inr (pg, bpm') \<Rightarrow> Inr (BasicPageGuard_new pg, bpm'))"

definition FetchPageRead ::
  "page_id_t \<Rightarrow> BufferPoolManager \<Rightarrow> error + (ReadPageGuard \<times> BufferPoolManager)" where
  "FetchPageRead pid bpm =
     (case FetchPage pid bpm of
        Inl e \<Rightarrow> Inl e
      | Inr (None, bpm') \<Rightarrow> Inl NullPointerDereference
      | Inr (Some frame_id, bpm') \<Rightarrow>
          (case RLatch (pages bpm' ! nat frame_id) of
             Inl e \<Rightarrow> Inl e
           | Inr latched \<Rightarrow>
               Inr (ReadPageGuard (BasicPageGuard_new (Some frame_id)),
                    bpm'\<lparr> pages := (pages bpm')[nat frame_id := latched] \<rparr>)))"

definition FetchPageWrite ::
  "page_id_t \<Rightarrow> BufferPoolManager \<Rightarrow> error + (WritePageGuard \<times> BufferPoolManager)" where
  "FetchPageWrite pid bpm =
     (case FetchPage pid bpm of
        Inl e \<Rightarrow> Inl e
      | Inr (None, bpm') \<Rightarrow> Inl NullPointerDereference
      | Inr (Some frame_id, bpm') \<Rightarrow>
          (case WLatch (pages bpm' ! nat frame_id) of
             Inl e \<Rightarrow> Inl e
           | Inr latched \<Rightarrow>
               Inr (WritePageGuard (BasicPageGuard_new (Some frame_id)),
                    bpm'\<lparr> pages := (pages bpm')[nat frame_id := latched] \<rparr>)))"

definition NewPageGuarded ::
  "BufferPoolManager \<Rightarrow> error + ((page_id_t option \<times> BasicPageGuard) \<times> BufferPoolManager)" where
  "NewPageGuarded bpm =
     (case NewPage bpm of
        Inl e \<Rightarrow> Inl e
      | Inr (None, bpm') \<Rightarrow> Inr ((None, BasicPageGuard_new None), bpm')
      | Inr (Some (pid, frame_id), bpm') \<Rightarrow>
          Inr ((Some pid, BasicPageGuard_new (Some frame_id)), bpm'))"


section \<open>Properties of the reachable states\<close>

text \<open>
  The bookkeeping of the loop of \<^verbatim>\<open>Evict\<close>: after the frames \<open>seen\<close>, the accumulator
  is empty exactly when nothing was seen, and otherwise names a frame that was seen, with
  its distance and oldest timestamp, preferred to every frame seen.
\<close>

definition best_ok ::
  "LRUKReplacer \<Rightarrow> frame_id_t list \<Rightarrow> (frame_id_t \<times> enat \<times> nat) option \<Rightarrow> bool" where
  "best_ok r seen best =
     (case best of
        None \<Rightarrow> seen = []
      | Some (v, kd, ts) \<Rightarrow>
          v \<in> set seen \<and> kd = backward_k_distance r v \<and> ts = oldest_timestamp r v \<and>
          (\<forall>g\<in>set seen. preferred_to r v g))"

text \<open>
  What holds of the manager between two calls.  \<open>shape_ok\<close>: the containers have the sizes
  and ranges the constructor gave them.  \<open>table_ok\<close>: a page-table entry points at a frame
  of the pool that carries the entry's page id and is not on the free list.
  \<open>frame_ok\<close>: the pin count of a frame against its place in the replacer and the free
  list; a frame on the free list is clean and a frame off it has been accessed.
\<close>

definition in_pool :: "BufferPoolManager \<Rightarrow> frame_id_t \<Rightarrow> bool" where
  "in_pool bpm f \<longleftrightarrow> 0 \<le> f \<and> f < int (pool_size bpm)"

definition shape_ok :: "BufferPoolManager \<Rightarrow> bool" where
  "shape_ok bpm \<longleftrightarrow>
     length (pages bpm) = pool_size bpm \<and>
     replacer_size (replacer bpm) = pool_size bpm \<and>
     0 < lru_k (replacer bpm) \<and>
     distinct (free_list bpm) \<and>
     distinct (map fst (page_table bpm)) \<and>
     (\<forall>f\<in>set (free_list bpm). in_pool bpm f) \<and>
     (\<forall>f\<in>set (evictable (replacer bpm)). in_pool bpm f)"

definition table_ok :: "BufferPoolManager \<Rightarrow> bool" where
  "table_ok bpm \<longleftrightarrow>
     (\<forall>p f. map_of (page_table bpm) p = Some f \<longrightarrow>
        in_pool bpm f \<and> page_id (pages bpm ! nat f) = p \<and> f \<notin> set (free_list bpm))"

definition frame_ok :: "BufferPoolManager \<Rightarrow> frame_id_t \<Rightarrow> bool" where
  "frame_ok bpm f \<longleftrightarrow>
     0 \<le> pin_count (pages bpm ! nat f) \<and>
     (pin_count (pages bpm ! nat f) = 0 \<longleftrightarrow>
        f \<in> set (evictable (replacer bpm)) \<or> f \<in> set (free_list bpm)) \<and>
     (f \<in> set (free_list bpm) \<longrightarrow> \<not> is_dirty (pages bpm ! nat f)) \<and>
     (f \<notin> set (free_list bpm) \<longrightarrow> node_store (replacer bpm) f \<noteq> [])"

definition bpm_inv :: "BufferPoolManager \<Rightarrow> bool" where
  "bpm_inv bpm \<longleftrightarrow> shape_ok bpm \<and> table_ok bpm \<and> (\<forall>f. in_pool bpm f \<longrightarrow> frame_ok bpm f)"

text \<open>
  The state in the middle of \<^verbatim>\<open>NewPage\<close> and \<^verbatim>\<open>FetchPage\<close>, when frame \<open>v\<close> has been taken
  from the free list or from the replacer and is not yet installed.
\<close>

definition frame_taken :: "BufferPoolManager \<Rightarrow> frame_id_t \<Rightarrow> bool" where
  "frame_taken bpm v \<longleftrightarrow>
     shape_ok bpm \<and> table_ok bpm \<and> in_pool bpm v \<and>
     v \<notin> set (free_list bpm) \<and>
     (\<forall>f. in_pool bpm f \<and> f \<noteq> v \<longrightarrow> frame_ok bpm f)"

text \<open>
  What a caller may ask for: a caller only fetches a page id that \<^verbatim>\<open>NewPage\<close> has handed
  out before (section 3 of the specification: a page becomes resident via \<^verbatim>\<open>new_page\<close>
  with a fresh id, or via \<^verbatim>\<open>fetch_page\<close> with an existing id).  Before the counter has
  wrapped these are the ids from 0 up to the counter.
\<close>

fun fetches_allocated :: "bpm_call \<Rightarrow> BufferPoolManager \<Rightarrow> bool" where
  "fetches_allocated (CallFetchPage pid) bpm = (0 \<le> pid \<and> pid < next_page_id bpm)"
| "fetches_allocated _ bpm = True"

fun run_fetches_allocated :: "bpm_call list \<Rightarrow> BufferPoolManager \<Rightarrow> bool" where
  "run_fetches_allocated [] bpm = True"
| "run_fetches_allocated (c # cs) bpm =
     (fetches_allocated c bpm \<and>
      (case bpm_step c bpm of
         Inl e \<Rightarrow> True
       | Inr (_, bpm') \<Rightarrow> run_fetches_allocated cs bpm'))"

text \<open>
  With such callers every resident page id has been allocated, and every frame off the
  free list is the frame of the page whose id it carries.
\<close>

definition resident_ok :: "BufferPoolManager \<Rightarrow> bool" where
  "resident_ok bpm \<longleftrightarrow>
     (\<forall>p f. map_of (page_table bpm) p = Some f \<longrightarrow> p < next_page_id bpm) \<and>
     (\<forall>f. in_pool bpm f \<and> f \<notin> set (free_list bpm) \<longrightarrow>
          map_of (page_table bpm) (page_id (pages bpm ! nat f)) = Some f)"

text \<open>
  \<open>written_back bpm bpm'\<close>: every page that is resident and dirty in \<open>bpm\<close> and not resident in
  \<open>bpm'\<close> was written to disk in between, with the bytes its frame held in \<open>bpm\<close>.
  \<open>same_residents\<close>: the two states have the same page table, free list and allocator, and
  every frame carries the same page id.
\<close>

definition written_back :: "BufferPoolManager \<Rightarrow> BufferPoolManager \<Rightarrow> bool" where
  "written_back bpm bpm' \<longleftrightarrow>
     (\<forall>p f. map_of (page_table bpm) p = Some f \<and> is_dirty (pages bpm ! nat f) \<and>
            map_of (page_table bpm') p = None \<longrightarrow>
        (\<exists>ws. disk_manager bpm' = disk_manager bpm @ ws \<and>
              (p, data (pages bpm ! nat f)) \<in> set ws))"

definition same_residents :: "BufferPoolManager \<Rightarrow> BufferPoolManager \<Rightarrow> bool" where
  "same_residents bpm bpm' \<longleftrightarrow>
     page_table bpm' = page_table bpm \<and> free_list bpm' = free_list bpm \<and>
     next_page_id bpm' = next_page_id bpm \<and> pool_size bpm' = pool_size bpm \<and>
     (\<forall>i. page_id (pages bpm' ! i) = page_id (pages bpm ! i))"

text \<open>
  \<open>kept_or_written bpm bpm'\<close>: every frame that held a dirty page in \<open>bpm\<close> still holds the
  same page id and bytes and is still dirty in \<open>bpm'\<close>, or that page id was written to disk
  with those bytes in between.  \<open>dirt_kept\<close>: no frame changed its page id or its bytes, and
  no dirty flag was cleared.
\<close>

definition kept_or_written :: "BufferPoolManager \<Rightarrow> BufferPoolManager \<Rightarrow> bool" where
  "kept_or_written bpm bpm' \<longleftrightarrow>
     (\<forall>f. in_pool bpm f \<and> is_dirty (pages bpm ! nat f) \<longrightarrow>
        (page_id (pages bpm' ! nat f) = page_id (pages bpm ! nat f) \<and>
         data (pages bpm' ! nat f) = data (pages bpm ! nat f) \<and>
         is_dirty (pages bpm' ! nat f)) \<or>
        (\<exists>ws. disk_manager bpm' = disk_manager bpm @ ws \<and>
              (page_id (pages bpm ! nat f), data (pages bpm ! nat f)) \<in> set ws))"

definition dirt_kept :: "BufferPoolManager \<Rightarrow> BufferPoolManager \<Rightarrow> bool" where
  "dirt_kept bpm bpm' \<longleftrightarrow>
     (\<forall>i. page_id (pages bpm' ! i) = page_id (pages bpm ! i) \<and>
          data (pages bpm' ! i) = data (pages bpm ! i) \<and>
          (is_dirty (pages bpm ! i) \<longrightarrow> is_dirty (pages bpm' ! i)))"

text \<open>
  The number of page ids that a run has allocated: the successful \<^verbatim>\<open>NewPage\<close> calls among
  its results.
\<close>

fun is_allocation :: "bpm_return \<Rightarrow> bool" where
  "is_allocation (NewPageReturned (Some x)) = True"
| "is_allocation r = False"

definition allocations :: "bpm_return list \<Rightarrow> nat" where
  "allocations ress = length (filter is_allocation ress)"

text \<open>
  A caller that uses up page ids in a pool of one frame: \<open>n\<close> times, a new page that is
  unpinned at once (the next \<^verbatim>\<open>NewPage\<close> evicts it).  \<open>one_frame_pool n\<close> is the state of the
  pool after \<open>n\<close> such rounds: the frame holds page \<open>n - 1\<close>, unpinned and clean, and the
  counter stands at \<open>n\<close>.
\<close>

fun allocate_and_unpin :: "nat \<Rightarrow> bpm_call list" where
  "allocate_and_unpin 0 = []"
| "allocate_and_unpin (Suc n) =
     allocate_and_unpin n @ [CallNewPage, CallUnpinPage (int n) False]"

definition one_frame_pool :: "nat \<Rightarrow> BufferPoolManager" where
  "one_frame_pool n =
     \<lparr> pool_size = 1,
       pages = [\<lparr> data = replicate BUSTUB_PAGE_SIZE 0, page_id = int n - 1, pin_count = 0,
                  is_dirty = False, latch_readers = 0, latch_writer = False \<rparr>],
       page_table = [(int n - 1, 0)],
       free_list = [],
       replacer = \<lparr> node_store = (\<lambda>_. [])(0 := [n - 1]), current_timestamp = n,
                    evictable = [0], replacer_size = 1, lru_k = 2 \<rparr>,
       next_page_id = int n,
       disk_manager = [] \<rparr>"

section \<open>The replacer alone\<close>

lemma preferred_to_refl: "preferred_to r v v"
  by (simp add: preferred_to_def)

lemma preferred_to_trans:
  "preferred_to r a b \<Longrightarrow> preferred_to r b c \<Longrightarrow> preferred_to r a c"
  unfolding preferred_to_def by (metis le_trans less_trans)

lemma preferred_to_total: "preferred_to r a b \<or> preferred_to r b a"
  unfolding preferred_to_def by (metis linorder_less_linear nat_le_linear)

lemma Evict_loop_best:
  assumes "\<forall>f\<in>set xs. node_store r f \<noteq> []" and "best_ok r seen best"
  shows "\<exists>res. Evict_loop r xs best = Inr res \<and> best_ok r (seen @ xs) res"
  using assms
proof (induction xs arbitrary: seen best)
  case Nil
  then show ?case by simp
next
  case (Cons x xs)
  have hx: "node_store r x \<noteq> []" using Cons.prems(1) by simp
  have rest: "\<forall>f\<in>set xs. node_store r f \<noteq> []" using Cons.prems(1) by simp
  let ?kd = "backward_k_distance r x"
  let ?ts = "oldest_timestamp r x"
  show ?case
  proof (cases best)
    case None
    then have "seen = []" using Cons.prems(2) by (simp add: best_ok_def)
    then have ok: "best_ok r (seen @ [x]) (Some (x, ?kd, ?ts))"
      by (simp add: best_ok_def preferred_to_refl)
    from Cons.IH [OF rest ok] obtain res where
      "Evict_loop r xs (Some (x, ?kd, ?ts)) = Inr res" "best_ok r ((seen @ [x]) @ xs) res"
      by blast
    moreover have "Evict_loop r (x # xs) best = Evict_loop r xs (Some (x, ?kd, ?ts))"
      using hx None
      by (auto simp: backward_k_distance_def oldest_timestamp_def Let_def)
    ultimately show ?thesis by simp
  next
    case (Some b)
    obtain v mk lru where b: "b = (v, mk, lru)" by (cases b)
    from Cons.prems(2) Some b have v: "v \<in> set seen" "mk = backward_k_distance r v"
      "lru = oldest_timestamp r v" "\<forall>g\<in>set seen. preferred_to r v g"
      by (simp_all add: best_ok_def)
    show ?thesis
    proof (cases "mk < ?kd \<or> (?kd = mk \<and> ?ts < lru)")
      case True
      then have xv: "preferred_to r x v" using v(2,3) by (auto simp: preferred_to_def)
      have ok: "best_ok r (seen @ [x]) (Some (x, ?kd, ?ts))"
        using v(4) xv by (auto simp: best_ok_def preferred_to_refl intro: preferred_to_trans)
      from Cons.IH [OF rest ok] obtain res where
        "Evict_loop r xs (Some (x, ?kd, ?ts)) = Inr res" "best_ok r ((seen @ [x]) @ xs) res"
        by blast
      moreover have "Evict_loop r (x # xs) best = Evict_loop r xs (Some (x, ?kd, ?ts))"
        using hx Some b True
        by (auto simp: backward_k_distance_def oldest_timestamp_def Let_def)
      ultimately show ?thesis by simp
    next
      case False
      then have vx: "preferred_to r v x" using v(2,3) by (auto simp: preferred_to_def)
      have ok: "best_ok r (seen @ [x]) (Some (v, mk, lru))"
        using v vx by (auto simp: best_ok_def)
      from Cons.IH [OF rest ok] obtain res where
        "Evict_loop r xs (Some (v, mk, lru)) = Inr res" "best_ok r ((seen @ [x]) @ xs) res"
        by blast
      moreover have "Evict_loop r (x # xs) best = Evict_loop r xs (Some (v, mk, lru))"
        using hx Some b False
        by (auto simp: backward_k_distance_def oldest_timestamp_def Let_def)
      ultimately show ?thesis by simp
    qed
  qed
qed

text \<open>
  Where every evictable frame has at least one recorded access, \<^verbatim>\<open>Evict\<close> selects as the
  specification says: none when nothing is evictable; otherwise an evictable frame of
  greatest backward K-distance, ties going to the smallest oldest retained timestamp, whose
  history it clears and which it takes out of the evictable set.
\<close>

lemma Evict_chooses:
  assumes "\<forall>f\<in>set (evictable r). node_store r f \<noteq> []"
  shows "(evictable r = [] \<longrightarrow> Evict r = Inr (None, r)) \<and>
         (evictable r \<noteq> [] \<longrightarrow>
            (\<exists>v r'. Evict r = Inr (Some v, r') \<and>
               v \<in> set (evictable r) \<and>
               (\<forall>g\<in>set (evictable r). preferred_to r v g) \<and>
               node_store r' = (node_store r)(v := []) \<and>
               set (evictable r') = set (evictable r) - {v} \<and>
               r' = r\<lparr> node_store := node_store r', evictable := evictable r' \<rparr>))"
proof -
  have "best_ok r [] None" by (simp add: best_ok_def)
  from Evict_loop_best [OF assms this] obtain res where
    res: "Evict_loop r (evictable r) None = Inr res" "best_ok r (evictable r) res"
    by auto
  show ?thesis
  proof (cases res)
    case None
    then show ?thesis using res by (simp add: Evict_def best_ok_def)
  next
    case (Some b)
    obtain v mk lru where b: "b = (v, mk, lru)" by (cases b)
    from res(2) Some b have "v \<in> set (evictable r)" "\<forall>g\<in>set (evictable r). preferred_to r v g"
      by (simp_all add: best_ok_def)
    then show ?thesis using res(1) Some b
      by (auto simp: Evict_def)
  qed
qed


lemma replacer_step_range:
  assumes "replacer_step c r = Inr r'" and "(\<forall>g\<in>set (evictable r). 0 \<le> g \<and> g < int (replacer_size r))"
  shows "(\<forall>g\<in>set (evictable r'). 0 \<le> g \<and> g < int (replacer_size r')) \<and> replacer_size r' = replacer_size r"
  using assms
  by (cases c)
     (auto simp: Evict_def RecordAccess_def SetEvictable_def Remove_def Let_def
           split: sum.splits option.splits if_splits prod.splits)

lemma replacer_calls_range:
  assumes "replacer_calls cs r = Inr r'" and "(\<forall>g\<in>set (evictable r). 0 \<le> g \<and> g < int (replacer_size r))"
  shows "(\<forall>g\<in>set (evictable r'). 0 \<le> g \<and> g < int (replacer_size r')) \<and> replacer_size r' = replacer_size r"
  using assms
proof (induction cs arbitrary: r)
  case Nil
  then show ?case by simp
next
  case (Cons c cs)
  from Cons.prems(1) obtain r1 where s: "replacer_step c r = Inr r1" "replacer_calls cs r1 = Inr r'"
    by (auto split: sum.splits)
  from replacer_step_range [OF s(1) Cons.prems(2)]
  have a: "\<forall>g\<in>set (evictable r1). 0 \<le> g \<and> g < int (replacer_size r1)"
    and b: "replacer_size r1 = replacer_size r" by blast+
  from Cons.IH [OF s(2) a] b show ?case by auto
qed

text \<open>
  Claim C9.  In every state of a replacer reached by calls on a fresh replacer of
  \<open>num_frames\<close> frames, for a frame id outside \<open>[0, num_frames)\<close>: \<^verbatim>\<open>Remove\<close> returns and
  leaves the replacer as it was, while \<^verbatim>\<open>RecordAccess\<close> and \<^verbatim>\<open>SetEvictable\<close> throw the
  invalid-frame exception.  \<^verbatim>\<open>Remove\<close> has no failing branch at all: its result type is
  the replacer.
\<close>

theorem Remove_unchecked:
  assumes "replacer_calls cs (LRUKReplacer_new num_frames k) = Inr r"
    and "f < 0 \<or> int num_frames \<le> f"
  shows "Remove f r = r \<and>
         RecordAccess f r = Inl (Exception ''Invalid frame ID'') \<and>
         SetEvictable f flag r = Inl (Exception ''Invalid frame ID'')"
proof -
  have inv: "(\<forall>g\<in>set (evictable r). 0 \<le> g \<and> g < int (replacer_size r)) \<and>
             replacer_size r = replacer_size (LRUKReplacer_new num_frames k)"
    by (rule replacer_calls_range [OF assms(1)]) (simp add: LRUKReplacer_new_def)
  then have size: "replacer_size r = num_frames" by (simp add: LRUKReplacer_new_def)
  have out: "f \<notin> set (evictable r)"
  proof
    assume "f \<in> set (evictable r)"
    with inv have "0 \<le> f \<and> f < int (replacer_size r)" by blast
    with assms(2) size show False by simp
  qed
  show ?thesis using assms(2) size out
    by (simp add: Remove_def RecordAccess_def SetEvictable_def)
qed

theorem Remove_unchecked_witness:
  "replacer_calls [CallRecordAccess 0, CallSetEvictable 0 True] (LRUKReplacer_new 2 2) =
     Inr \<lparr> node_store = (\<lambda>_. [])(0 := [0]), current_timestamp = 1, evictable = [0],
           replacer_size = 2, lru_k = 2 \<rparr> \<and>
   ((5::int) < 0 \<or> int 2 \<le> 5) \<and>
   Remove 5 \<lparr> node_store = (\<lambda>_. [])(0 := [0]), current_timestamp = 1, evictable = [0],
              replacer_size = 2, lru_k = 2 \<rparr> =
     \<lparr> node_store = (\<lambda>_. [])(0 := [0]), current_timestamp = 1, evictable = [0],
       replacer_size = 2, lru_k = 2 \<rparr> \<and>
   RecordAccess 5 \<lparr> node_store = (\<lambda>_. [])(0 := [0]), current_timestamp = 1, evictable = [0],
              replacer_size = 2, lru_k = 2 \<rparr> = Inl (Exception ''Invalid frame ID'') \<and>
   SetEvictable 5 True \<lparr> node_store = (\<lambda>_. [])(0 := [0]), current_timestamp = 1,
              evictable = [0], replacer_size = 2, lru_k = 2 \<rparr> = Inl (Exception ''Invalid frame ID'')"
proof -
  let ?r = "\<lparr> node_store = (\<lambda>_. [])(0 := [0::nat]), current_timestamp = 1, evictable = [0::int],
              replacer_size = 2, lru_k = 2 \<rparr>"
  have run: "replacer_calls [CallRecordAccess 0, CallSetEvictable 0 True] (LRUKReplacer_new 2 2) = Inr ?r"
    by (simp add: RecordAccess_def SetEvictable_def LRUKReplacer_new_def)
  have out: "(5::int) < 0 \<or> int 2 \<le> 5" by simp
  from Remove_unchecked [OF run out, of True] run out show ?thesis by simp
qed

section \<open>Evaluating the model\<close>

lemmas bpm_defs =
  BufferPoolManager_new_def LRUKReplacer_new_def Page_new_def ResetMemory_def
  NewPage_def FetchPage_def FetchPage_pin_def UnpinPage_def FlushPage_def DeletePage_def
  FindAndEvictFrame_def AllocatePage_def wrap_page_id_def SetEvictable_def RecordAccess_def
  Remove_def Evict_def WritePage_def ReadPage_def CallerWritesData_def FlushAllPages_def
  FlushAllPages_body_def Let_def

lemmas bpm_eval =
  BufferPoolManager_new_def LRUKReplacer_new_def Page_new_def ResetMemory_def
  NewPage_def FetchPage_def FetchPage_pin_def UnpinPage_def FlushPage_def DeletePage_def
  FindAndEvictFrame_def AllocatePage_def wrap_page_id_def SetEvictable_def RecordAccess_def Remove_def Evict_def
  WritePage_def ReadPage_def CallerWritesData_def FlushAllPages_def FlushAllPages_body_def
  RLatch_def WLatch_def RUnlatch_def WUnlatch_def
  FetchPageBasic_def FetchPageRead_def FetchPageWrite_def BasicPageGuard_new_def
  BasicPageGuard_Drop_def BasicPageGuard_assign_def ReadPageGuard_assign_def ReadPageGuard_Drop_def
  WritePageGuard_assign_def WritePageGuard_Drop_def
  Let_def eval_nat_numeral

section \<open>Page identifiers\<close>

lemma wrap_page_id_id:
  "- 2147483648 \<le> x \<Longrightarrow> x \<le> 2147483647 \<Longrightarrow> wrap_page_id x = x"
  by (simp add: wrap_page_id_def)

lemma wrap_page_id_range: "- 2147483648 \<le> wrap_page_id x \<and> wrap_page_id x \<le> 2147483647"
proof -
  have "0 \<le> (x + 2147483648) mod 4294967296" and "(x + 2147483648) mod 4294967296 < 4294967296"
    by simp_all
  then show ?thesis unfolding wrap_page_id_def by arith
qed

lemma wrap_page_id_succ:
  assumes "- 2147483648 \<le> x"
  shows "wrap_page_id (x + 1) \<le> x + 1"
proof (cases "x + 1 \<le> 2147483647")
  case True
  with assms show ?thesis by (simp add: wrap_page_id_id)
next
  case False
  with wrap_page_id_range [of "x + 1"] show ?thesis by arith
qed

lemma FindAndEvictFrame_next_page_id:
  "FindAndEvictFrame bpm = Inr (res, bpm') \<Longrightarrow> next_page_id bpm' = next_page_id bpm"
  by (auto simp: FindAndEvictFrame_def Let_def split: list.splits sum.splits option.splits prod.splits)

lemma NewPage_next_page_id:
  assumes "NewPage bpm = Inr (res, bpm')"
  shows "(res = None \<longrightarrow> next_page_id bpm' = next_page_id bpm) \<and>
         (\<forall>p f. res = Some (p, f) \<longrightarrow>
            p = next_page_id bpm \<and> next_page_id bpm' = wrap_page_id (p + 1))"
proof (cases "FindAndEvictFrame bpm")
  case (Inl e)
  then show ?thesis using assms by (simp add: NewPage_def)
next
  case (Inr x)
  obtain fr bpm1 where x: "x = (fr, bpm1)" by (cases x)
  from Inr x have n: "next_page_id bpm1 = next_page_id bpm"
    by (simp add: FindAndEvictFrame_next_page_id)
  show ?thesis using assms Inr x n
    by (auto simp: NewPage_def AllocatePage_def Let_def split: option.splits sum.splits)
qed

lemma FetchPage_pin_next_page_id:
  "FetchPage_pin f bpm = Inr (res, bpm') \<Longrightarrow> next_page_id bpm' = next_page_id bpm"
  by (auto simp: FetchPage_pin_def Let_def split: sum.splits)

lemma FetchPage_next_page_id:
  assumes "FetchPage pid bpm = Inr (res, bpm')"
  shows "next_page_id bpm' = next_page_id bpm"
proof (cases "map_of (page_table bpm) pid")
  case (Some f)
  then show ?thesis using assms by (simp add: FetchPage_def FetchPage_pin_next_page_id)
next
  case None
  show ?thesis
  proof (cases "FindAndEvictFrame bpm")
    case (Inl e)
    then show ?thesis using assms None by (simp add: FetchPage_def)
  next
    case (Inr x)
    obtain fr bpm1 where x: "x = (fr, bpm1)" by (cases x)
    from Inr x have n: "next_page_id bpm1 = next_page_id bpm"
      by (simp add: FindAndEvictFrame_next_page_id)
    show ?thesis
    proof (cases fr)
      case N: None
      then show ?thesis using assms None Inr x n by (simp add: FetchPage_def)
    next
      case (Some v)
      with assms None Inr x have
        "FetchPage_pin v (bpm1\<lparr> pages := (pages bpm1)[nat v := (pages bpm1 ! nat v)
              \<lparr> data := ReadPage pid (disk_manager bpm1), page_id := pid, pin_count := 0 \<rparr>],
            page_table := AList.update pid v (page_table bpm1) \<rparr>) = Inr (res, bpm')"
        by (simp add: FetchPage_def Let_def)
      from FetchPage_pin_next_page_id [OF this] n show ?thesis by simp
    qed
  qed
qed

lemma UnpinPage_next_page_id:
  "UnpinPage pid dirty bpm = Inr (res, bpm') \<Longrightarrow> next_page_id bpm' = next_page_id bpm"
  by (auto simp: UnpinPage_def Let_def split: option.splits sum.splits if_splits)

lemma FlushPage_next_page_id: "next_page_id (snd (FlushPage pid bpm)) = next_page_id bpm"
  by (simp add: FlushPage_def Let_def split: option.splits)

lemma fold_FlushAllPages_body_next_page_id:
  "next_page_id (fold FlushAllPages_body entries bpm) = next_page_id bpm"
  by (induction entries arbitrary: bpm) (simp_all add: FlushAllPages_body_def Let_def split: prod.splits)

lemma DeletePage_next_page_id: "next_page_id (snd (DeletePage pid bpm)) = next_page_id bpm"
  by (simp add: DeletePage_def Let_def split: option.splits)

text \<open>
  Only a successful \<^verbatim>\<open>NewPage\<close> moves the counter: it returns the counter and leaves its
  wrapped successor.
\<close>

lemma bpm_step_next_page_id:
  assumes "bpm_step c bpm = Inr (res, bpm')"
  shows "((\<forall>x. res \<noteq> NewPageReturned (Some x)) \<longrightarrow> next_page_id bpm' = next_page_id bpm) \<and>
         (\<forall>p f. res = NewPageReturned (Some (p, f)) \<longrightarrow>
            c = CallNewPage \<and> p = next_page_id bpm \<and>
            next_page_id bpm' = wrap_page_id (p + 1))"
proof (cases c)
  case CallNewPage
  with assms obtain r where r: "NewPage bpm = Inr (r, bpm')" "res = NewPageReturned r"
    by (auto split: sum.splits)
  from NewPage_next_page_id [OF r(1)] r(2) CallNewPage show ?thesis
    by (cases r) auto
next
  case (CallFetchPage pid)
  with assms obtain r where "FetchPage pid bpm = Inr (r, bpm')" "res = FetchPageReturned r"
    by (auto split: sum.splits)
  with FetchPage_next_page_id [OF this(1)] show ?thesis by simp
next
  case (CallUnpinPage pid dirty)
  with assms obtain r where "UnpinPage pid dirty bpm = Inr (r, bpm')" "res = BoolReturned r"
    by (auto split: sum.splits)
  with UnpinPage_next_page_id [OF this(1)] show ?thesis by simp
next
  case (CallFlushPage pid)
  with assms FlushPage_next_page_id [of pid bpm] show ?thesis
    by (auto split: prod.splits)
next
  case CallFlushAllPages
  with assms show ?thesis
    by (auto simp: FlushAllPages_def fold_FlushAllPages_body_next_page_id)
next
  case (CallDeletePage pid)
  with assms DeletePage_next_page_id [of pid bpm] show ?thesis
    by (auto split: prod.splits)
next
  case (CallerWrites pid bytes)
  with assms show ?thesis
    by (auto simp: CallerWritesData_def split: option.splits)
qed

lemma is_allocation_iff: "is_allocation r \<longleftrightarrow> (\<exists>x. r = NewPageReturned (Some x))"
  by (cases r rule: is_allocation.cases) simp_all

lemma allocations_Cons:
  "allocations (r # rs) = (if is_allocation r then Suc (allocations rs) else allocations rs)"
  by (simp add: allocations_def)

lemma allocations_pos: "i < length rs \<Longrightarrow> is_allocation (rs ! i) \<Longrightarrow> 0 < allocations rs"
  by (auto simp: allocations_def filter_empty_conv)

text \<open>
  One call uses up at most one of the page ids that are left below the bound, and leaves the
  counter in the range of \<^verbatim>\<open>page_id_t\<close>.
\<close>

lemma bpm_step_counter:
  assumes s: "bpm_step c bpm = Inr (res, bpm')" and lo: "- 2147483648 \<le> next_page_id bpm"
  shows "- 2147483648 \<le> next_page_id bpm' \<and>
         next_page_id bpm' + int (allocations rs) \<le>
           next_page_id bpm + int (allocations (res # rs))"
proof -
  note st = bpm_step_next_page_id [OF s]
  show ?thesis
  proof (cases "is_allocation res")
    case True
    then obtain p f where r: "res = NewPageReturned (Some (p, f))"
      by (auto simp: is_allocation_iff)
    with st have p: "p = next_page_id bpm"
      and n: "next_page_id bpm' = wrap_page_id (p + 1)" by simp_all
    from wrap_page_id_range [of "p + 1"] wrap_page_id_succ [of p] lo p n True
    show ?thesis by (simp add: allocations_Cons)
  next
    case False
    with st have "next_page_id bpm' = next_page_id bpm" by (simp add: is_allocation_iff)
    with lo False show ?thesis by (simp add: allocations_Cons)
  qed
qed

lemma bpm_run_page_ids:
  assumes "bpm_run cs bpm = Inr (ress, bpm')"
    and "- 2147483648 \<le> next_page_id bpm"
    and "next_page_id bpm + int (allocations ress) \<le> 2147483648"
    and "i < length ress" and "ress ! i = NewPageReturned (Some (p, f))"
  shows "next_page_id bpm \<le> p"
  using assms
proof (induction cs arbitrary: bpm ress i)
  case Nil
  then show ?case by simp
next
  case (Cons c cs)
  from Cons.prems(1) obtain r bpm1 rs where
    s: "bpm_step c bpm = Inr (r, bpm1)" "bpm_run cs bpm1 = Inr (rs, bpm')" "ress = r # rs"
    by (auto split: sum.splits prod.splits)
  note st = bpm_step_next_page_id [OF s(1)]
  from bpm_step_counter [OF s(1) Cons.prems(2), of rs] have
    ct: "- 2147483648 \<le> next_page_id bpm1"
      "next_page_id bpm1 + int (allocations rs) \<le> next_page_id bpm + int (allocations (r # rs))"
    by simp_all
  show ?case
  proof (cases i)
    case 0
    with Cons.prems(5) s(3) st show ?thesis by simp
  next
    case (Suc i')
    with Cons.prems(4,5) s(3) have i': "i' < length rs" "rs ! i' = NewPageReturned (Some (p, f))"
      by simp_all
    from ct(2) Cons.prems(3) s(3) have hi: "next_page_id bpm1 + int (allocations rs) \<le> 2147483648"
      by simp
    from Cons.IH [OF s(2) ct(1) hi i'] have le: "next_page_id bpm1 \<le> p" .
    from allocations_pos [OF i'(1)] i'(2) have pos: "0 < allocations rs" by simp
    show ?thesis
    proof (cases "is_allocation r")
      case True
      then obtain p0 f0 where r: "r = NewPageReturned (Some (p0, f0))"
        by (auto simp: is_allocation_iff)
      with st have p0: "p0 = next_page_id bpm"
        and n: "next_page_id bpm1 = wrap_page_id (p0 + 1)" by simp_all
      from Cons.prems(3) s(3) True pos have "p0 + 1 \<le> 2147483647"
        using p0 by (simp add: allocations_Cons)
      with Cons.prems(2) p0 n have "next_page_id bpm1 = p0 + 1" by (simp add: wrap_page_id_id)
      with le p0 show ?thesis by simp
    next
      case False
      with st le show ?thesis by (simp add: is_allocation_iff)
    qed
  qed
qed

text \<open>
  Claim C10.  Page ids are 32-bit: the counter of \<^verbatim>\<open>AllocatePage\<close> wraps.  As long as the
  ids that a run allocates are left below the bound, that is, the counter at the start
  plus the number of successful \<^verbatim>\<open>NewPage\<close> calls of the run is at most \<open>2\<^sup>3\<^sup>1\<close> (on a fresh
  pool: at most \<open>2\<^sup>3\<^sup>1\<close> pages are allocated), a page id returned by a successful \<^verbatim>\<open>NewPage\<close>
  is strictly greater than every page id an earlier \<^verbatim>\<open>NewPage\<close> of the run returned: ids
  are not reused, whatever was deleted in between (\<^verbatim>\<open>DeallocatePage\<close> does nothing).
\<close>

theorem NewPage_ids_increase:
  assumes "bpm_run cs bpm = Inr (ress, bpm')"
    and "- 2147483648 \<le> next_page_id bpm"
    and "next_page_id bpm + int (allocations ress) \<le> 2147483648"
    and "i < j" and "j < length ress"
    and "ress ! i = NewPageReturned (Some (p, f))"
    and "ress ! j = NewPageReturned (Some (q, g))"
  shows "p < q"
  using assms
proof (induction cs arbitrary: bpm ress i j)
  case Nil
  then show ?case by simp
next
  case (Cons c cs)
  from Cons.prems(1) obtain r bpm1 rs where
    s: "bpm_step c bpm = Inr (r, bpm1)" "bpm_run cs bpm1 = Inr (rs, bpm')" "ress = r # rs"
    by (auto split: sum.splits prod.splits)
  from Cons.prems(4) obtain j' where j: "j = Suc j'" by (cases j) simp_all
  with Cons.prems(5,7) s(3) have j': "j' < length rs" "rs ! j' = NewPageReturned (Some (q, g))"
    by simp_all
  note st = bpm_step_next_page_id [OF s(1)]
  from bpm_step_counter [OF s(1) Cons.prems(2), of rs] have
    ct: "- 2147483648 \<le> next_page_id bpm1"
      "next_page_id bpm1 + int (allocations rs) \<le> next_page_id bpm + int (allocations (r # rs))"
    by simp_all
  from ct(2) Cons.prems(3) s(3) have hi: "next_page_id bpm1 + int (allocations rs) \<le> 2147483648"
    by simp
  show ?case
  proof (cases i)
    case 0
    with Cons.prems(6) s(3) have r: "r = NewPageReturned (Some (p, f))" by simp
    with st have p: "p = next_page_id bpm"
      and n: "next_page_id bpm1 = wrap_page_id (p + 1)" by simp_all
    from allocations_pos [OF j'(1)] j'(2) have pos: "0 < allocations rs" by simp
    from Cons.prems(3) s(3) r pos p have "p + 1 \<le> 2147483647"
      by (simp add: allocations_Cons)
    with Cons.prems(2) p n have "next_page_id bpm1 = p + 1" by (simp add: wrap_page_id_id)
    moreover from bpm_run_page_ids [OF s(2) ct(1) hi j'] have "next_page_id bpm1 \<le> q" .
    ultimately show ?thesis by simp
  next
    case (Suc i')
    with Cons.prems(4,6) s(3) j have "i' < j'" "rs ! i' = NewPageReturned (Some (p, f))"
      by simp_all
    from Cons.IH [OF s(2) ct(1) hi this(1) j'(1) this(2) j'(2)] show ?thesis .
  qed
qed

theorem NewPage_ids_increase_witness:
  "\<exists>ress bpm' p f q g.
     bpm_run [CallNewPage, CallUnpinPage 0 False, CallDeletePage 0, CallNewPage]
       (BufferPoolManager_new 1 [] 2) = Inr (ress, bpm') \<and>
     ress ! 0 = NewPageReturned (Some (p, f)) \<and>
     ress ! 3 = NewPageReturned (Some (q, g)) \<and> p = 0 \<and> q = 1 \<and> p < q"
proof -
  let ?cs = "[CallNewPage, CallUnpinPage 0 False, CallDeletePage 0, CallNewPage]"
  obtain ress bpm' where run: "bpm_run ?cs (BufferPoolManager_new 1 [] 2) = Inr (ress, bpm')"
    and r: "ress = [NewPageReturned (Some (0, 0)), BoolReturned True, BoolReturned True,
                   NewPageReturned (Some (1, 0))]"
    by (simp add: bpm_eval)
  have lo: "- 2147483648 \<le> next_page_id (BufferPoolManager_new 1 [] 2)"
    and hi: "next_page_id (BufferPoolManager_new 1 [] 2) + int (allocations ress) \<le> 2147483648"
    by (simp_all add: BufferPoolManager_new_def r allocations_def)
  have "(0::int) < 1"
    by (rule NewPage_ids_increase [OF run lo hi, of 0 3 0 0 1 0]) (simp_all add: r)
  with run r show ?thesis by simp
qed

subsection \<open>The counter wraps\<close>

lemma bpm_run_append:
  "bpm_run (xs @ ys) bpm =
     (case bpm_run xs bpm of
        Inl e \<Rightarrow> Inl e
      | Inr (rs, bpm1) \<Rightarrow>
          (case bpm_run ys bpm1 of
             Inl e \<Rightarrow> Inl e
           | Inr (rs', bpm2) \<Rightarrow> Inr (rs @ rs', bpm2)))"
  by (induction xs arbitrary: bpm) (auto split: sum.splits prod.splits)

lemma first_round:
  "bpm_run [CallNewPage, CallUnpinPage 0 False] (BufferPoolManager_new 1 [] 2) =
     Inr ([NewPageReturned (Some (0, 0)), BoolReturned True], one_frame_pool 1)"
  by (simp add: bpm_eval one_frame_pool_def)

lemma next_round:
  assumes "0 < n" and "n < 2147483647"
  shows "bpm_run [CallNewPage, CallUnpinPage (int n) False] (one_frame_pool n) =
     Inr ([NewPageReturned (Some (int n, 0)), BoolReturned True], one_frame_pool (Suc n))"
proof -
  from assms have w: "wrap_page_id (int n + 1) = int n + 1"
    by (intro wrap_page_id_id) simp_all
  from assms have m: "int (Suc n) - 1 = int n" "Suc n - 1 = n" "Suc (n - 1) = n" by simp_all
  show ?thesis
    using assms(1)
    by (simp add: one_frame_pool_def w m NewPage_def FindAndEvictFrame_def Evict_def
          SetEvictable_def RecordAccess_def AllocatePage_def UnpinPage_def ResetMemory_def Let_def)
qed

lemma allocate_and_unpin_run:
  "0 < n \<Longrightarrow> n \<le> 2147483647 \<Longrightarrow>
     \<exists>ress. bpm_run (allocate_and_unpin n) (BufferPoolManager_new 1 [] 2) =
               Inr (ress, one_frame_pool n) \<and> length ress = 2 * n"
proof (induction n)
  case 0
  then show ?case by simp
next
  case (Suc n)
  show ?case
  proof (cases "n = 0")
    case True
    then show ?thesis using first_round by simp
  next
    case False
    with Suc obtain ress where
      r: "bpm_run (allocate_and_unpin n) (BufferPoolManager_new 1 [] 2) =
            Inr (ress, one_frame_pool n)"
         "length ress = 2 * n"
      by auto
    from False Suc.prems have "0 < n" "n < 2147483647" by simp_all
    from next_round [OF this] r show ?thesis
      by (simp add: bpm_run_append del: bpm_run.simps)
  qed
qed

lemma last_round:
  "bpm_run [CallNewPage, CallUnpinPage 2147483647 False, CallNewPage]
       (one_frame_pool 2147483647) =
     Inr ([NewPageReturned (Some (2147483647, 0)), BoolReturned True,
           NewPageReturned (Some (- 2147483648, 0))],
          (one_frame_pool 2147483649)\<lparr> next_page_id := - 2147483647,
             pages := [\<lparr> data = replicate BUSTUB_PAGE_SIZE 0, page_id = - 2147483648,
                         pin_count = 1, is_dirty = False, latch_readers = 0,
                         latch_writer = False \<rparr>],
             page_table := [(- 2147483648, 0)],
             replacer := \<lparr> node_store = (\<lambda>_. [])(0 := [2147483648]),
                            current_timestamp = 2147483649, evictable = [],
                            replacer_size = 1, lru_k = 2 \<rparr> \<rparr>)"
  by (simp add: bpm_defs one_frame_pool_def)

text \<open>
  Without the bound the claim fails.  On a fresh pool of one frame, after 2147483647
  rounds of \<^verbatim>\<open>NewPage\<close> and \<^verbatim>\<open>UnpinPage\<close>, \<^verbatim>\<open>NewPage\<close> returns page id 2147483647 and the
  \<^verbatim>\<open>NewPage\<close> after it returns -2147483648, which is smaller.  The second part is the same
  three calls on a pool whose counter stands at 2147483647.
\<close>

theorem NewPage_ids_wrap:
  "(case bpm_run (allocate_and_unpin 2147483647 @
                   [CallNewPage, CallUnpinPage 2147483647 False, CallNewPage])
           (BufferPoolManager_new 1 [] 2) of
      Inl e \<Rightarrow> False
    | Inr (ress, s) \<Rightarrow>
        ress ! 4294967294 = NewPageReturned (Some (2147483647, 0)) \<and>
        ress ! 4294967296 = NewPageReturned (Some (- 2147483648, 0))) \<and>
   (case bpm_run [CallNewPage, CallUnpinPage 2147483647 False, CallNewPage]
           ((BufferPoolManager_new 1 [] 2)\<lparr> next_page_id := 2147483647 \<rparr>) of
      Inl e \<Rightarrow> False
    | Inr (ress, s) \<Rightarrow>
        ress = [NewPageReturned (Some (2147483647, 0)), BoolReturned True,
                NewPageReturned (Some (- 2147483648, 0))])"
proof -
  from allocate_and_unpin_run [of 2147483647] obtain ress where
    r: "bpm_run (allocate_and_unpin 2147483647) (BufferPoolManager_new 1 [] 2) =
          Inr (ress, one_frame_pool 2147483647)" "length ress = 4294967294"
    by auto
  have a: "(case bpm_run (allocate_and_unpin 2147483647 @
                   [CallNewPage, CallUnpinPage 2147483647 False, CallNewPage])
           (BufferPoolManager_new 1 [] 2) of
      Inl e \<Rightarrow> False
    | Inr (ress, s) \<Rightarrow>
        ress ! 4294967294 = NewPageReturned (Some (2147483647, 0)) \<and>
        ress ! 4294967296 = NewPageReturned (Some (- 2147483648, 0)))"
    by (simp add: bpm_run_append r last_round nth_append del: bpm_run.simps One_nat_def)
  have b: "(case bpm_run [CallNewPage, CallUnpinPage 2147483647 False, CallNewPage]
           ((BufferPoolManager_new 1 [] 2)\<lparr> next_page_id := 2147483647 \<rparr>) of
      Inl e \<Rightarrow> False
    | Inr (ress, s) \<Rightarrow>
        ress = [NewPageReturned (Some (2147483647, 0)), BoolReturned True,
                NewPageReturned (Some (- 2147483648, 0))])"
    by (simp add: bpm_defs)
  from a b show ?thesis by (rule conjI)
qed

section \<open>Deleting and flushing\<close>

text \<open>
  Claim C6.  \<^verbatim>\<open>DeletePage\<close> of a page that is not resident returns true (and changes
  nothing).  Of a resident page with pin count at least 1 it returns false and leaves the
  whole manager as it was.  Of a resident page with pin count 0 it returns true, writes the
  page to disk exactly when it is dirty, erases the page-table entry and appends the frame
  to the free list.
\<close>

theorem DeletePage_cases:
  "(map_of (page_table bpm) pid = None \<longrightarrow> DeletePage pid bpm = (True, bpm)) \<and>
   (\<forall>f. map_of (page_table bpm) pid = Some f \<and> 1 \<le> pin_count (pages bpm ! nat f) \<longrightarrow>
        DeletePage pid bpm = (False, bpm)) \<and>
   (\<forall>f. map_of (page_table bpm) pid = Some f \<and> pin_count (pages bpm ! nat f) = 0 \<longrightarrow>
        (\<exists>bpm'. DeletePage pid bpm = (True, bpm') \<and>
           disk_manager bpm' =
             (if is_dirty (pages bpm ! nat f)
              then WritePage pid (data (pages bpm ! nat f)) (disk_manager bpm)
              else disk_manager bpm) \<and>
           map_of (page_table bpm') pid = None \<and>
           (\<forall>q. q \<noteq> pid \<longrightarrow> map_of (page_table bpm') q = map_of (page_table bpm) q) \<and>
           free_list bpm' = free_list bpm @ [f]))"
  by (simp add: DeletePage_def Let_def delete_conv')

theorem DeletePage_cases_witness:
  "(case bpm_run [CallNewPage, CallerWrites 0 [1, 2, 3]] (BufferPoolManager_new 1 [] 2) of
      Inl e \<Rightarrow> False
    | Inr (_, s) \<Rightarrow>
        pin_count (pages s ! 0) = 1 \<and> DeletePage 5 s = (True, s) \<and> DeletePage 0 s = (False, s)) \<and>
   (case bpm_run [CallNewPage, CallerWrites 0 [1, 2, 3], CallUnpinPage 0 True]
           (BufferPoolManager_new 1 [] 2) of
      Inl e \<Rightarrow> False
    | Inr (_, s) \<Rightarrow>
        pin_count (pages s ! 0) = 0 \<and> is_dirty (pages s ! 0) \<and>
        (\<exists>bpm'. DeletePage 0 s = (True, bpm') \<and> disk_manager bpm' = [(0, [1, 2, 3])] \<and>
           map_of (page_table bpm') 0 = None \<and> free_list bpm' = [0]))"
proof -
  obtain rs1 s1 where run1:
    "bpm_run [CallNewPage, CallerWrites 0 [1, 2, 3]] (BufferPoolManager_new 1 [] 2) = Inr (rs1, s1)"
    and s1: "map_of (page_table s1) 5 = None" "map_of (page_table s1) 0 = Some 0"
            "pin_count (pages s1 ! 0) = 1"
    by (simp add: bpm_eval)
  obtain rs2 s2 where run2:
    "bpm_run [CallNewPage, CallerWrites 0 [1, 2, 3], CallUnpinPage 0 True]
       (BufferPoolManager_new 1 [] 2) = Inr (rs2, s2)"
    and s2: "map_of (page_table s2) 0 = Some 0" "pin_count (pages s2 ! 0) = 0"
            "is_dirty (pages s2 ! 0)" "data (pages s2 ! 0) = [1, 2, 3]"
            "disk_manager s2 = []" "free_list s2 = []"
    by (simp add: bpm_eval)
  from DeletePage_cases [of s1 5] s1 have a: "DeletePage 5 s1 = (True, s1)" by simp
  from DeletePage_cases [of s1 0] s1 have b: "DeletePage 0 s1 = (False, s1)" by simp
  from DeletePage_cases [of s2 0] s2 have c:
    "\<exists>bpm'. DeletePage 0 s2 = (True, bpm') \<and> disk_manager bpm' = [(0, [1, 2, 3])] \<and>
        map_of (page_table bpm') 0 = None \<and> free_list bpm' = [0]"
    by (auto simp: WritePage_def)
  show ?thesis using run1 run2 a b c s1 s2 by simp
qed

text \<open>
  Claim C8.  For a page that is resident in a frame of the pool, two \<^verbatim>\<open>FlushPage\<close> calls
  in a row both return true; what can be read back from the disk after the second is what
  could be read back after the first; the dirty flag is clear after the first call and the
  second call changes no page.
\<close>

theorem FlushPage_twice:
  assumes "map_of (page_table bpm) pid = Some f" and "nat f < length (pages bpm)"
  shows "\<exists>bpm1 bpm2.
           FlushPage pid bpm = (True, bpm1) \<and> FlushPage pid bpm1 = (True, bpm2) \<and>
           (\<forall>q. ReadPage q (disk_manager bpm2) = ReadPage q (disk_manager bpm1)) \<and>
           \<not> is_dirty (pages bpm1 ! nat f) \<and>
           pages bpm2 = pages bpm1"
  using assms
  by (simp add: FlushPage_def Let_def ReadPage_def WritePage_def list_update_same_conv)

theorem FlushPage_twice_witness:
  "(case bpm_run [CallNewPage, CallerWrites 0 [1, 2, 3], CallUnpinPage 0 True, CallFetchPage 0]
           (BufferPoolManager_new 1 [] 2) of
      Inl e \<Rightarrow> False
    | Inr (_, s) \<Rightarrow>
        is_dirty (pages s ! 0) \<and>
        (\<exists>bpm1 bpm2.
           FlushPage 0 s = (True, bpm1) \<and> FlushPage 0 bpm1 = (True, bpm2) \<and>
           ReadPage 0 (disk_manager bpm1) = [1, 2, 3] \<and>
           ReadPage 0 (disk_manager bpm2) = [1, 2, 3] \<and>
           \<not> is_dirty (pages bpm1 ! 0) \<and> pages bpm2 = pages bpm1))"
proof -
  obtain rs s where run:
    "bpm_run [CallNewPage, CallerWrites 0 [1, 2, 3], CallUnpinPage 0 True, CallFetchPage 0]
       (BufferPoolManager_new 1 [] 2) = Inr (rs, s)"
    and s: "map_of (page_table s) 0 = Some 0" "nat 0 < length (pages s)"
           "is_dirty (pages s ! 0)" "data (pages s ! 0) = [1, 2, 3]"
    by (simp add: bpm_eval)
  from FlushPage_twice [OF s(1,2)] obtain bpm1 bpm2 where
    f: "FlushPage 0 s = (True, bpm1)" "FlushPage 0 bpm1 = (True, bpm2)"
       "\<forall>q. ReadPage q (disk_manager bpm2) = ReadPage q (disk_manager bpm1)"
       "\<not> is_dirty (pages bpm1 ! nat 0)" "pages bpm2 = pages bpm1"
    by blast
  from f(1) s have "ReadPage 0 (disk_manager bpm1) = [1, 2, 3]"
    by (auto simp: FlushPage_def Let_def ReadPage_def WritePage_def)
  with f run s(3) show ?thesis by simp
qed

section \<open>Where the code departs from the specification\<close>



text \<open>
  Claim C2, at a pool of one frame whose only frame is pinned.  \<^verbatim>\<open>FetchPage\<close> of another
  page returns the null pointer.  \<^verbatim>\<open>FetchPageBasic\<close> wraps it in an empty guard, whose
  \<^verbatim>\<open>Drop\<close> does nothing; \<^verbatim>\<open>FetchPageRead\<close> and \<^verbatim>\<open>FetchPageWrite\<close> call \<^verbatim>\<open>RLatch\<close> and
  \<^verbatim>\<open>WLatch\<close> through it.
\<close>

theorem FetchPageRead_exhausted:
  "(case bpm_run [CallNewPage] (BufferPoolManager_new 1 [] 2) of
      Inl e \<Rightarrow> False
    | Inr (_, s) \<Rightarrow>
        pin_count (pages s ! 0) = 1 \<and>
        FetchPage 1 s = Inr (None, s) \<and>
        FetchPageBasic 1 s = Inr (BasicPageGuard_new None, s) \<and>
        BasicPageGuard_Drop (BasicPageGuard_new None) s = Inr (BasicPageGuard_new None, s) \<and>
        FetchPageRead 1 s = Inl NullPointerDereference \<and>
        FetchPageWrite 1 s = Inl NullPointerDereference)"
  by (simp add: bpm_eval)

text \<open>
  Claim C3, at a pool of one frame: a page is created, unpinned and deleted.  The frame is
  back on the free list, clean and with an empty history, and still carries the id of the
  deleted page: \<^verbatim>\<open>DeletePage\<close> resets the memory of the frame and not its \<^verbatim>\<open>page_id_\<close>.
\<close>

theorem DeletePage_keeps_page_id:
  "(case bpm_run [CallNewPage, CallUnpinPage 0 False, CallDeletePage 0]
           (BufferPoolManager_new 1 [] 2) of
      Inl e \<Rightarrow> False
    | Inr (ress, s) \<Rightarrow>
        ress = [NewPageReturned (Some (0, 0)), BoolReturned True, BoolReturned True] \<and>
        free_list s = [0] \<and>
        page_id (pages s ! 0) = 0 \<and>
        page_id (pages s ! 0) \<noteq> INVALID_PAGE_ID \<and>
        \<not> is_dirty (pages s ! 0) \<and>
        node_store (replacer s) 0 = [])"
  by (simp add: bpm_eval INVALID_PAGE_ID_def)

text \<open>
  Claim C7, at a pool of two frames holding pages 0 and 1: a read guard on page 0 is
  move-assigned a read guard on page 1.  Page 0 is unpinned once and its shared latch is
  still held afterwards, where \<^verbatim>\<open>ReadPageGuard::Drop\<close> on the same guard releases it; the
  same with write guards and the exclusive latch.  The assigned guard holds page 1 and the
  source guard is empty.
\<close>

theorem PageGuard_assign_keeps_latch:
  "(case bpm_run [CallNewPage, CallNewPage] (BufferPoolManager_new 2 [] 2) of
      Inl e \<Rightarrow> False
    | Inr (_, s) \<Rightarrow>
        (case FetchPageRead 0 s of
           Inl e \<Rightarrow> False
         | Inr (this, s1) \<Rightarrow>
             (case FetchPageRead 1 s1 of
                Inl e \<Rightarrow> False
              | Inr (that, s2) \<Rightarrow>
                  pin_count (pages s2 ! 0) = 2 \<and> latch_readers (pages s2 ! 0) = 1 \<and>
                  (case ReadPageGuard_assign this that s2 of
                     Inl e \<Rightarrow> False
                   | Inr (this', that', s3) \<Rightarrow>
                       this' = that \<and>
                       that' = ReadPageGuard \<lparr> guard_bpm = True, guard_page = None,
                                               guard_is_dirty = False \<rparr> \<and>
                       pin_count (pages s3 ! 0) = 1 \<and> latch_readers (pages s3 ! 0) = 1) \<and>
                  (case ReadPageGuard_Drop this s2 of
                     Inl e \<Rightarrow> False
                   | Inr (_, s4) \<Rightarrow>
                       pin_count (pages s4 ! 0) = 1 \<and> latch_readers (pages s4 ! 0) = 0))) \<and>
        (case FetchPageWrite 0 s of
           Inl e \<Rightarrow> False
         | Inr (this, s1) \<Rightarrow>
             (case FetchPageWrite 1 s1 of
                Inl e \<Rightarrow> False
              | Inr (that, s2) \<Rightarrow>
                  pin_count (pages s2 ! 0) = 2 \<and> latch_writer (pages s2 ! 0) \<and>
                  (case WritePageGuard_assign this that s2 of
                     Inl e \<Rightarrow> False
                   | Inr (this', that', s3) \<Rightarrow>
                       this' = that \<and>
                       that' = WritePageGuard \<lparr> guard_bpm = True, guard_page = None,
                                                guard_is_dirty = False \<rparr> \<and>
                       pin_count (pages s3 ! 0) = 1 \<and> latch_writer (pages s3 ! 0)) \<and>
                  (case WritePageGuard_Drop this s2 of
                     Inl e \<Rightarrow> False
                   | Inr (_, s4) \<Rightarrow>
                       pin_count (pages s4 ! 0) = 1 \<and> \<not> latch_writer (pages s4 ! 0)))))"
  by (simp add: bpm_eval)

section \<open>The invariant of the manager\<close>

lemma nth_update_frame:
  "0 \<le> f \<Longrightarrow> 0 \<le> v \<Longrightarrow> nat v < length xs \<Longrightarrow>
     (xs[nat v := x]) ! nat f = (if f = v then x else xs ! nat f)"
  by (auto simp: nth_list_update)

lemma int_image_upt: "0 \<le> f \<Longrightarrow> f < int n \<Longrightarrow> f \<in> int ` {0..<n}"
  by (rule image_eqI [of _ _ "nat f"]) auto

lemma in_pool_length:
  "shape_ok bpm \<Longrightarrow> in_pool bpm f \<Longrightarrow> nat f < length (pages bpm)"
  by (simp add: shape_ok_def in_pool_def nat_less_iff)

lemma in_pool_nonneg: "in_pool bpm f \<Longrightarrow> 0 \<le> f"
  by (simp add: in_pool_def)

lemma in_pool_replacer:
  "shape_ok bpm \<Longrightarrow> in_pool bpm f \<Longrightarrow> \<not> (f < 0 \<or> int (replacer_size (replacer bpm)) \<le> f)"
  by (simp add: shape_ok_def in_pool_def)

lemma frame_ok_cong:
  assumes "pages b ! nat f = pages a ! nat f"
    and "f \<in> set (evictable (replacer b)) \<longleftrightarrow> f \<in> set (evictable (replacer a))"
    and "f \<in> set (free_list b) \<longleftrightarrow> f \<in> set (free_list a)"
    and "node_store (replacer b) f = [] \<longleftrightarrow> node_store (replacer a) f = []"
  shows "frame_ok b f = frame_ok a f"
  using assms by (simp add: frame_ok_def)

lemma frame_ok_cleaner:
  assumes ok: "frame_ok a f"
    and pin: "pin_count (pages b ! nat f) = pin_count (pages a ! nat f)"
    and dirty: "is_dirty (pages b ! nat f) \<longrightarrow> is_dirty (pages a ! nat f) \<or> f \<notin> set (free_list a)"
    and rep: "replacer b = replacer a" and free: "free_list b = free_list a"
  shows "frame_ok b f"
proof -
  from ok have
    a1: "0 \<le> pin_count (pages a ! nat f)" and
    a2: "pin_count (pages a ! nat f) = 0 \<longleftrightarrow>
           f \<in> set (evictable (replacer a)) \<or> f \<in> set (free_list a)" and
    a4: "f \<in> set (free_list a) \<longrightarrow> \<not> is_dirty (pages a ! nat f)" and
    a5: "f \<notin> set (free_list a) \<longrightarrow> node_store (replacer a) f \<noteq> []"
    unfolding frame_ok_def by blast+
  show ?thesis
    unfolding frame_ok_def pin rep free
    using a1 a2 a4 a5 dirty by blast
qed

lemma bpm_inv_new: "0 < k \<Longrightarrow> bpm_inv (BufferPoolManager_new n disk k)"
  by (auto simp: bpm_inv_def shape_ok_def table_ok_def frame_ok_def in_pool_def int_image_upt
        BufferPoolManager_new_def LRUKReplacer_new_def Page_new_def distinct_map inj_on_def)

text \<open>Replacing one page by a page with the same owner and pin count.\<close>

lemma page_update_inv:
  assumes inv: "bpm_inv bpm"
    and pin: "pin_count pg = pin_count (pages bpm ! i)"
    and pid: "page_id pg = page_id (pages bpm ! i)"
    and dirty: "is_dirty pg \<longrightarrow> is_dirty (pages bpm ! i) \<or> int i \<notin> set (free_list bpm)"
  shows "bpm_inv (bpm\<lparr> disk_manager := d, pages := (pages bpm)[i := pg] \<rparr>)"
    (is "bpm_inv ?b")
proof -
  from inv have sh: "shape_ok bpm" and tb: "table_ok bpm"
    and fr: "\<And>f. in_pool bpm f \<Longrightarrow> frame_ok bpm f"
    by (auto simp: bpm_inv_def)
  have nth: "pin_count (pages ?b ! j) = pin_count (pages bpm ! j) \<and>
             page_id (pages ?b ! j) = page_id (pages bpm ! j) \<and>
             (is_dirty (pages ?b ! j) \<longrightarrow> is_dirty (pages bpm ! j) \<or> int j \<notin> set (free_list bpm))" for j
    using pin pid dirty
    by (cases "i < length (pages bpm)"; cases "j = i") (simp_all add: list_update_beyond)
  have "shape_ok ?b" using sh by (simp add: shape_ok_def in_pool_def)
  moreover have "table_ok ?b" using tb nth by (simp add: table_ok_def in_pool_def)
  moreover have "frame_ok ?b f" if "in_pool ?b f" for f
  proof -
    from that have f: "in_pool bpm f" by (simp add: in_pool_def)
    then have "int (nat f) = f" by (simp add: in_pool_def)
    with nth [of "nat f"] show ?thesis
      by (intro frame_ok_cleaner [OF fr [OF f]]) simp_all
  qed
  ultimately show ?thesis by (simp add: bpm_inv_def)
qed

lemma FlushPage_inv: "bpm_inv bpm \<Longrightarrow> bpm_inv (snd (FlushPage pid bpm))"
  by (cases "map_of (page_table bpm) pid")
     (simp_all add: FlushPage_def Let_def page_update_inv)

lemma CallerWritesData_inv: "bpm_inv bpm \<Longrightarrow> bpm_inv (CallerWritesData pid bytes bpm)"
proof (cases "map_of (page_table bpm) pid")
  case None
  then show "bpm_inv bpm \<Longrightarrow> ?thesis" by (simp add: CallerWritesData_def)
next
  case (Some v)
  assume inv: "bpm_inv bpm"
  have "bpm_inv (bpm\<lparr> disk_manager := disk_manager bpm,
                     pages := (pages bpm)[nat v := (pages bpm ! nat v)\<lparr> data := bytes \<rparr>] \<rparr>)"
    by (rule page_update_inv [OF inv]) simp_all
  then show ?thesis using Some by (simp add: CallerWritesData_def)
qed

lemma FlushAllPages_body_inv: "bpm_inv bpm \<Longrightarrow> bpm_inv (FlushAllPages_body entry bpm)"
  by (cases entry) (simp add: FlushAllPages_body_def Let_def page_update_inv)

lemma fold_FlushAllPages_body_inv:
  "bpm_inv bpm \<Longrightarrow> bpm_inv (fold FlushAllPages_body entries bpm)"
  by (induction entries arbitrary: bpm) (simp_all add: FlushAllPages_body_inv)

lemma FlushAllPages_inv: "bpm_inv bpm \<Longrightarrow> bpm_inv (FlushAllPages bpm)"
  by (simp add: FlushAllPages_def fold_FlushAllPages_body_inv)


section \<open>Replacer calls with a frame of the pool\<close>

lemma SetEvictable_False_eq:
  "\<not> (f < 0 \<or> int (replacer_size r) \<le> f) \<Longrightarrow>
     SetEvictable f False r = Inr (r\<lparr> evictable := removeAll f (evictable r) \<rparr>)"
  by (simp add: SetEvictable_def Let_def)

lemma SetEvictable_True_eq:
  "\<not> (f < 0 \<or> int (replacer_size r) \<le> f) \<Longrightarrow> f \<notin> set (evictable r) \<Longrightarrow>
     SetEvictable f True r = Inr (r\<lparr> evictable := evictable r @ [f] \<rparr>)"
  by (simp add: SetEvictable_def Let_def)

lemma RecordAccess_eq:
  assumes "\<not> (f < 0 \<or> int (replacer_size r) \<le> f)" and "0 < lru_k r"
  shows "\<exists>h. h \<noteq> [] \<and>
           RecordAccess f r = Inr (r\<lparr> node_store := (node_store r)(f := h),
                                      current_timestamp := current_timestamp r + 1 \<rparr>)"
proof -
  let ?pushed = "node_store r f @ [current_timestamp r]"
  let ?h = "if length ?pushed > lru_k r then tl ?pushed else ?pushed"
  have "?h \<noteq> []" using assms(2) by (cases "node_store r f") auto
  moreover have "RecordAccess f r = Inr (r\<lparr> node_store := (node_store r)(f := ?h),
                                      current_timestamp := current_timestamp r + 1 \<rparr>)"
    using assms(1) by (simp add: RecordAccess_def Let_def)
  ultimately show ?thesis by blast
qed

lemma pin_frame_in_replacer:
  assumes "\<not> (f < 0 \<or> int (replacer_size r) \<le> f)" and "0 < lru_k r"
  shows "\<exists>r2. (case SetEvictable f False r of Inl e \<Rightarrow> Inl e | Inr r1 \<Rightarrow> RecordAccess f r1) = Inr r2 \<and>
           set (evictable r2) = set (evictable r) - {f} \<and>
           node_store r2 f \<noteq> [] \<and>
           (\<forall>g. g \<noteq> f \<longrightarrow> node_store r2 g = node_store r g) \<and>
           replacer_size r2 = replacer_size r \<and> lru_k r2 = lru_k r"
proof -
  let ?r1 = "r\<lparr> evictable := removeAll f (evictable r) \<rparr>"
  have r1: "\<not> (f < 0 \<or> int (replacer_size ?r1) \<le> f)" "0 < lru_k ?r1" using assms by simp_all
  from RecordAccess_eq [OF r1] obtain h where
    h: "h \<noteq> []" "RecordAccess f ?r1 = Inr (?r1\<lparr> node_store := (node_store ?r1)(f := h),
                                      current_timestamp := current_timestamp ?r1 + 1 \<rparr>)"
    by blast
  show ?thesis using h by (simp add: SetEvictable_False_eq [OF assms(1)])
qed


section \<open>The manager's calls keep the invariant\<close>

lemma bpm_invD:
  assumes "bpm_inv bpm"
  shows "shape_ok bpm" and "table_ok bpm" and "\<And>f. in_pool bpm f \<Longrightarrow> frame_ok bpm f"
  using assms by (simp_all add: bpm_inv_def)

lemma table_okD:
  assumes "table_ok bpm" and "map_of (page_table bpm) p = Some f"
  shows "in_pool bpm f" and "page_id (pages bpm ! nat f) = p" and "f \<notin> set (free_list bpm)"
  using assms by (simp_all add: table_ok_def)

lemma frame_okD:
  assumes "frame_ok bpm f"
  shows "0 \<le> pin_count (pages bpm ! nat f)"
    and "pin_count (pages bpm ! nat f) = 0 \<longleftrightarrow>
           f \<in> set (evictable (replacer bpm)) \<or> f \<in> set (free_list bpm)"
    and "f \<in> set (free_list bpm) \<Longrightarrow> \<not> is_dirty (pages bpm ! nat f)"
    and "f \<notin> set (free_list bpm) \<Longrightarrow> node_store (replacer bpm) f \<noteq> []"
  using assms unfolding frame_ok_def by blast+

lemma UnpinPage_inv:
  assumes inv: "bpm_inv bpm"
  shows "\<exists>x. UnpinPage pid dirty bpm = Inr x \<and> bpm_inv (snd x)"
proof (cases "map_of (page_table bpm) pid")
  case None
  then have "UnpinPage pid dirty bpm = Inr (False, bpm)" by (simp add: UnpinPage_def)
  then show ?thesis using inv by simp
next
  case (Some v)
  note sh = bpm_invD(1) [OF inv] and tb = bpm_invD(2) [OF inv] and fr = bpm_invD(3) [OF inv]
  note v = table_okD [OF tb Some]
  note fv = frame_okD [OF fr [OF v(1)]]
  have len: "nat v < length (pages bpm)" by (rule in_pool_length [OF sh v(1)])
  have v0: "0 \<le> v" using v(1) by (simp add: in_pool_def)
  show ?thesis
  proof (cases "pin_count (pages bpm ! nat v) = 0")
    case True
    then have "UnpinPage pid dirty bpm = Inr (False, bpm)"
      using Some by (simp add: UnpinPage_def Let_def)
    then show ?thesis using inv by simp
  next
    case False
    define pg2 where "pg2 = (if dirty then (pages bpm ! nat v)\<lparr> is_dirty := True \<rparr>
                             else pages bpm ! nat v)
                               \<lparr> pin_count := pin_count (pages bpm ! nat v) - 1 \<rparr>"
    define bpm1 where "bpm1 = bpm\<lparr> pages := (pages bpm)[nat v := pg2] \<rparr>"
    have pg2: "pin_count pg2 = pin_count (pages bpm ! nat v) - 1"
      "page_id pg2 = page_id (pages bpm ! nat v)"
      by (simp_all add: pg2_def)
    have nth: "pages bpm1 ! nat f = (if f = v then pg2 else pages bpm ! nat f)" if "0 \<le> f" for f
      using that v0 len by (simp add: bpm1_def nth_update_frame)
    have sh1: "shape_ok bpm1" using sh by (simp add: shape_ok_def bpm1_def in_pool_def)
    have tb1: "table_ok bpm1"
      unfolding table_ok_def
    proof (intro allI impI)
      fix p f assume "map_of (page_table bpm1) p = Some f"
      then have m: "map_of (page_table bpm) p = Some f" by (simp add: bpm1_def)
      note f = table_okD [OF tb m]
      have "0 \<le> f" using f(1) by (simp add: in_pool_def)
      from nth [OF this] f pg2 show "in_pool bpm1 f \<and> page_id (pages bpm1 ! nat f) = p \<and>
            f \<notin> set (free_list bpm1)"
        by (auto simp: bpm1_def in_pool_def)
    qed
    have nev: "v \<notin> set (evictable (replacer bpm))" using fv(2) False by blast
    have others: "frame_ok b f" if "in_pool bpm f" "f \<noteq> v"
      "pages b ! nat f = pages bpm ! nat f"
      "set (evictable (replacer b)) - {v} = set (evictable (replacer bpm)) - {v}"
      "free_list b = free_list bpm" "node_store (replacer b) = node_store (replacer bpm)" for b f
    proof -
      have "frame_ok b f = frame_ok bpm f"
        using that(2,4) by (intro frame_ok_cong) (auto simp: that(3,5,6))
      then show ?thesis using fr [OF that(1)] by simp
    qed
    show ?thesis
    proof (cases "pin_count (pages bpm ! nat v) = 1")
      case True
      define bpm2 where
        "bpm2 = bpm1\<lparr> replacer := (replacer bpm)\<lparr> evictable := evictable (replacer bpm) @ [v] \<rparr> \<rparr>"
      have "SetEvictable v True (replacer bpm1) =
              Inr ((replacer bpm)\<lparr> evictable := evictable (replacer bpm) @ [v] \<rparr>)"
        using SetEvictable_True_eq [OF in_pool_replacer [OF sh v(1)] nev] by (simp add: bpm1_def)
      then have eq: "UnpinPage pid dirty bpm = Inr (True, bpm2)"
        using Some False True
        by (simp add: UnpinPage_def Let_def bpm2_def bpm1_def pg2_def)
      have "shape_ok bpm2" using sh1 v(1)
        by (simp add: shape_ok_def bpm2_def bpm1_def in_pool_def)
      moreover have "table_ok bpm2" using tb1
        by (simp add: table_ok_def bpm2_def in_pool_def)
      moreover have "frame_ok bpm2 f" if "in_pool bpm2 f" for f
      proof (cases "f = v")
        case T: True
        have "pages bpm2 ! nat v = pg2" using nth [OF v0] by (simp add: bpm2_def)
        then show ?thesis unfolding T frame_ok_def
          using True v(3) fv(4) pg2 by (simp add: bpm2_def bpm1_def)
      next
        case F: False
        from that have f: "in_pool bpm f" by (simp add: in_pool_def bpm2_def bpm1_def)
        then have "0 \<le> f" by (simp add: in_pool_def)
        from nth [OF this] F show ?thesis
          by (intro others [OF f F]) (auto simp: bpm2_def bpm1_def)
      qed
      ultimately show ?thesis using eq by (simp add: bpm_inv_def)
    next
      case F1: False
      have eq: "UnpinPage pid dirty bpm = Inr (True, bpm1)"
        using Some False F1 by (simp add: UnpinPage_def Let_def bpm1_def pg2_def)
      have "frame_ok bpm1 f" if "in_pool bpm1 f" for f
      proof (cases "f = v")
        case T: True
        have "pages bpm1 ! nat v = pg2" using nth [OF v0] by simp
        then show ?thesis unfolding T frame_ok_def
          using False F1 nev v(3) fv(1,4) pg2 by (simp add: bpm1_def)
      next
        case F: False
        from that have f: "in_pool bpm f" by (simp add: in_pool_def bpm1_def)
        then have "0 \<le> f" by (simp add: in_pool_def)
        from nth [OF this] F show ?thesis
          by (intro others [OF f F]) (auto simp: bpm1_def)
      qed
      then show ?thesis using eq sh1 tb1 by (simp add: bpm_inv_def)
    qed
  qed
qed


lemma DeletePage_inv:
  assumes inv: "bpm_inv bpm"
  shows "bpm_inv (snd (DeletePage pid bpm))"
proof (cases "map_of (page_table bpm) pid")
  case None
  then show ?thesis using inv by (simp add: DeletePage_def)
next
  case (Some v)
  note sh = bpm_invD(1) [OF inv] and tb = bpm_invD(2) [OF inv] and fr = bpm_invD(3) [OF inv]
  note v = table_okD [OF tb Some]
  note fv = frame_okD [OF fr [OF v(1)]]
  have len: "nat v < length (pages bpm)" by (rule in_pool_length [OF sh v(1)])
  have v0: "0 \<le> v" using v(1) by (simp add: in_pool_def)
  show ?thesis
  proof (cases "1 \<le> pin_count (pages bpm ! nat v)")
    case True
    then show ?thesis using inv Some by (simp add: DeletePage_def Let_def)
  next
    case False
    with fv(1) have pin0: "pin_count (pages bpm ! nat v) = 0" by simp
    with fv(2) v(3) have ev: "v \<in> set (evictable (replacer bpm))" by blast
    define pg1 where "pg1 = ResetMemory (if is_dirty (pages bpm ! nat v)
                              then (pages bpm ! nat v)\<lparr> is_dirty := False \<rparr> else pages bpm ! nat v)"
    define bpm1 where
      "bpm1 = bpm\<lparr> disk_manager := (if is_dirty (pages bpm ! nat v)
                                      then WritePage pid (data (pages bpm ! nat v)) (disk_manager bpm)
                                      else disk_manager bpm),
                    page_table := AList.delete pid (page_table bpm),
                    pages := (pages bpm)[nat v := pg1],
                    replacer := (replacer bpm)\<lparr> node_store := (node_store (replacer bpm))(v := []) \<rparr>,
                    free_list := free_list bpm @ [v] \<rparr>"
    have eq: "DeletePage pid bpm = (True, bpm1)"
      using Some False ev by (simp add: DeletePage_def Let_def bpm1_def pg1_def Remove_def)
    have pg1: "pin_count pg1 = 0" "page_id pg1 = pid" "\<not> is_dirty pg1"
      using pin0 v(2) by (simp_all add: pg1_def ResetMemory_def)
    have nth: "pages bpm1 ! nat f = (if f = v then pg1 else pages bpm ! nat f)" if "0 \<le> f" for f
      using that v0 len by (simp add: bpm1_def nth_update_frame)
    have sh1: "shape_ok bpm1" using sh v(1,3)
      by (simp add: shape_ok_def bpm1_def in_pool_def distinct_delete)
    have tb1: "table_ok bpm1"
      unfolding table_ok_def
    proof (intro allI impI)
      fix p f assume a: "map_of (page_table bpm1) p = Some f"
      then have p: "p \<noteq> pid" by (auto simp: bpm1_def delete_conv')
      with a have m: "map_of (page_table bpm) p = Some f" by (simp add: bpm1_def delete_conv')
      note f = table_okD [OF tb m]
      have f0: "0 \<le> f" using f(1) by (simp add: in_pool_def)
      have "f \<noteq> v" using f(2) v(2) p by auto
      with nth [OF f0] f show "in_pool bpm1 f \<and> page_id (pages bpm1 ! nat f) = p \<and>
            f \<notin> set (free_list bpm1)"
        by (simp add: bpm1_def in_pool_def)
    qed
    have "frame_ok bpm1 f" if "in_pool bpm1 f" for f
    proof (cases "f = v")
      case True
      have "pages bpm1 ! nat v = pg1" using nth [OF v0] by simp
      then show ?thesis unfolding True frame_ok_def
        using pg1 ev v(2) by (simp add: bpm1_def)
    next
      case F: False
      from that have f: "in_pool bpm f" by (simp add: in_pool_def bpm1_def)
      then have "0 \<le> f" by (simp add: in_pool_def)
      from nth [OF this] F have "frame_ok bpm1 f = frame_ok bpm f"
        by (intro frame_ok_cong) (auto simp: bpm1_def)
      then show ?thesis using fr [OF f] by simp
    qed
    then show ?thesis using eq sh1 tb1 by (simp add: bpm_inv_def)
  qed
qed

text \<open>
  \<^verbatim>\<open>FindAndEvictFrame\<close> either finds nothing and changes nothing, or hands out a frame
  that no page-table entry points at.
\<close>

lemma FindAndEvictFrame_taken:
  assumes inv: "bpm_inv bpm"
  shows "FindAndEvictFrame bpm = Inr (None, bpm) \<or>
         (\<exists>v bpm1. FindAndEvictFrame bpm = Inr (Some v, bpm1) \<and> frame_taken bpm1 v \<and>
            (\<forall>p. map_of (page_table bpm1) p \<noteq> Some v) \<and>
            next_page_id bpm1 = next_page_id bpm)"
proof (cases "free_list bpm")
  case (Cons x rest)
  note sh = bpm_invD(1) [OF inv] and tb = bpm_invD(2) [OF inv] and fr = bpm_invD(3) [OF inv]
  define bpm1 where "bpm1 = bpm\<lparr> free_list := rest \<rparr>"
  have eq: "FindAndEvictFrame bpm = Inr (Some x, bpm1)"
    using Cons by (simp add: FindAndEvictFrame_def bpm1_def)
  have x: "in_pool bpm x" "x \<notin> set rest" "distinct rest" "\<forall>f\<in>set rest. in_pool bpm f"
    using sh Cons by (simp_all add: shape_ok_def)
  have sh1: "shape_ok bpm1" using sh x by (simp add: shape_ok_def bpm1_def in_pool_def)
  have tb1: "table_ok bpm1" using tb Cons by (simp add: table_ok_def bpm1_def in_pool_def)
  have fr1: "frame_ok bpm1 f" if "in_pool bpm1 f \<and> f \<noteq> x" for f
  proof -
    from that have f: "in_pool bpm f" "f \<noteq> x" by (simp_all add: in_pool_def bpm1_def)
    have "frame_ok bpm1 f = frame_ok bpm f"
      using f(2) Cons by (intro frame_ok_cong) (auto simp: bpm1_def)
    then show ?thesis using fr [OF f(1)] by simp
  qed
  have un: "map_of (page_table bpm1) p \<noteq> Some x" for p
  proof
    assume "map_of (page_table bpm1) p = Some x"
    then have "map_of (page_table bpm) p = Some x" by (simp add: bpm1_def)
    from table_okD(3) [OF tb this] Cons show False by simp
  qed
  have "frame_taken bpm1 x"
    unfolding frame_taken_def using sh1 tb1 fr1 x by (simp add: bpm1_def in_pool_def)
  then show ?thesis using eq un by (simp add: bpm1_def)
next
  case Nil
  note sh = bpm_invD(1) [OF inv] and tb = bpm_invD(2) [OF inv] and fr = bpm_invD(3) [OF inv]
  have evp: "in_pool bpm f" if "f \<in> set (evictable (replacer bpm))" for f
    using sh that by (simp add: shape_ok_def)
  have hist: "\<forall>f\<in>set (evictable (replacer bpm)). node_store (replacer bpm) f \<noteq> []"
  proof
    fix f assume "f \<in> set (evictable (replacer bpm))"
    from frame_okD(4) [OF fr [OF evp [OF this]]] Nil show "node_store (replacer bpm) f \<noteq> []"
      by simp
  qed
  show ?thesis
  proof (cases "evictable (replacer bpm) = []")
    case True
    with Evict_chooses [OF hist] have "Evict (replacer bpm) = Inr (None, replacer bpm)" by simp
    then show ?thesis using Nil by (simp add: FindAndEvictFrame_def)
  next
    case False
    with Evict_chooses [OF hist] obtain v r' where
      ev: "Evict (replacer bpm) = Inr (Some v, r')" "v \<in> set (evictable (replacer bpm))"
        "node_store r' = (node_store (replacer bpm))(v := [])"
        "set (evictable r') = set (evictable (replacer bpm)) - {v}"
        "r' = (replacer bpm)\<lparr> node_store := node_store r', evictable := evictable r' \<rparr>"
      by blast
    have v: "in_pool bpm v" by (rule evp [OF ev(2)])
    have len: "nat v < length (pages bpm)" by (rule in_pool_length [OF sh v])
    have v0: "0 \<le> v" using v by (simp add: in_pool_def)
    have r'sz: "replacer_size r' = replacer_size (replacer bpm)" "lru_k r' = lru_k (replacer bpm)"
      by (subst ev(5), simp)+
    define frame where "frame = pages bpm ! nat v"
    define frame2 where "frame2 = ResetMemory ((if is_dirty frame then frame\<lparr> is_dirty := False \<rparr>
                                     else frame)\<lparr> page_id := INVALID_PAGE_ID \<rparr>)"
    define bpm1 where
      "bpm1 = bpm\<lparr> replacer := r',
                    page_table := AList.delete (page_id frame) (page_table bpm),
                    disk_manager := (if is_dirty frame
                                     then WritePage (page_id frame) (data frame) (disk_manager bpm)
                                     else disk_manager bpm),
                    pages := (pages bpm)[nat v := frame2] \<rparr>"
    have eq: "FindAndEvictFrame bpm = Inr (Some v, bpm1)"
      using Nil ev(1) by (simp add: FindAndEvictFrame_def Let_def bpm1_def frame2_def frame_def)
    have nth: "pages bpm1 ! nat f = (if f = v then frame2 else pages bpm ! nat f)" if "0 \<le> f" for f
      using that v0 len by (simp add: bpm1_def nth_update_frame)
    have sh1: "shape_ok bpm1" using sh ev(4) r'sz Nil
      by (simp add: shape_ok_def bpm1_def in_pool_def distinct_delete)
    have other: "f \<noteq> v" if "map_of (page_table bpm1) p = Some f" for p f
    proof
      assume "f = v"
      from that have p: "p \<noteq> page_id frame" by (auto simp: bpm1_def delete_conv')
      with that have "map_of (page_table bpm) p = Some f" by (simp add: bpm1_def delete_conv')
      from table_okD(2) [OF tb this] \<open>f = v\<close> p show False by (simp add: frame_def)
    qed
    have tb1: "table_ok bpm1"
      unfolding table_ok_def
    proof (intro allI impI)
      fix p f assume a: "map_of (page_table bpm1) p = Some f"
      then have p: "p \<noteq> page_id frame" by (auto simp: bpm1_def delete_conv')
      with a have m: "map_of (page_table bpm) p = Some f" by (simp add: bpm1_def delete_conv')
      note f = table_okD [OF tb m]
      have f0: "0 \<le> f" using f(1) by (simp add: in_pool_def)
      from nth [OF f0] other [OF a] f show "in_pool bpm1 f \<and> page_id (pages bpm1 ! nat f) = p \<and>
            f \<notin> set (free_list bpm1)"
        by (simp add: bpm1_def in_pool_def)
    qed
    have fr1: "frame_ok bpm1 f" if "in_pool bpm1 f \<and> f \<noteq> v" for f
    proof -
      from that have f: "in_pool bpm f" "f \<noteq> v" by (simp_all add: in_pool_def bpm1_def)
      then have "0 \<le> f" by (simp add: in_pool_def)
      from nth [OF this] f(2) have "frame_ok bpm1 f = frame_ok bpm f"
        by (intro frame_ok_cong) (auto simp: bpm1_def ev(3,4))
      then show ?thesis using fr [OF f(1)] by simp
    qed
    have "frame_taken bpm1 v"
      unfolding frame_taken_def using sh1 tb1 fr1 v Nil by (simp add: bpm1_def in_pool_def)
    then show ?thesis using eq other by (auto simp: bpm1_def)
  qed
qed


text \<open>Installing a page in a frame that was handed out.\<close>

lemma install_inv:
  assumes tk: "frame_taken bpm v"
    and un: "\<forall>p. map_of (page_table bpm) p \<noteq> Some v"
    and pg: "page_id pg = pid"
  shows "frame_taken (bpm\<lparr> next_page_id := n,
                           page_table := AList.update pid v (page_table bpm),
                           pages := (pages bpm)[nat v := pg] \<rparr>) v"
    (is "frame_taken ?b v")
proof -
  from tk have sh: "shape_ok bpm" and tb: "table_ok bpm" and v: "in_pool bpm v"
    and vf: "v \<notin> set (free_list bpm)"
    and fr: "\<And>f. in_pool bpm f \<and> f \<noteq> v \<Longrightarrow> frame_ok bpm f"
    by (simp_all add: frame_taken_def)
  have len: "nat v < length (pages bpm)" by (rule in_pool_length [OF sh v])
  have v0: "0 \<le> v" using v by (simp add: in_pool_def)
  have nth: "pages ?b ! nat f = (if f = v then pg else pages bpm ! nat f)" if "0 \<le> f" for f
    using that v0 len by (simp add: nth_update_frame)
  have sh1: "shape_ok ?b" using sh
    by (simp add: shape_ok_def in_pool_def distinct_update)
  have tb1: "table_ok ?b"
    unfolding table_ok_def
  proof (intro allI impI)
    fix p f assume a: "map_of (page_table ?b) p = Some f"
    show "in_pool ?b f \<and> page_id (pages ?b ! nat f) = p \<and> f \<notin> set (free_list ?b)"
    proof (cases "p = pid")
      case True
      with a have "f = v" by (simp add: update_conv')
      with True nth [OF v0] v vf pg(1) show ?thesis by (simp add: in_pool_def)
    next
      case False
      with a have m: "map_of (page_table bpm) p = Some f" by (simp add: update_conv')
      note f = table_okD [OF tb m]
      have f0: "0 \<le> f" using f(1) by (simp add: in_pool_def)
      have "f \<noteq> v" using un m by auto
      with nth [OF f0] f show ?thesis by (simp add: in_pool_def)
    qed
  qed
  have fr1: "frame_ok ?b f" if "in_pool ?b f \<and> f \<noteq> v" for f
  proof -
    from that have f: "in_pool bpm f \<and> f \<noteq> v" by (simp add: in_pool_def)
    then have "0 \<le> f" by (simp add: in_pool_def)
    from nth [OF this] f have "frame_ok ?b f = frame_ok bpm f"
      by (intro frame_ok_cong) auto
    then show ?thesis using fr [OF f] by simp
  qed
  show ?thesis
    unfolding frame_taken_def using sh1 tb1 fr1 v vf by (simp add: in_pool_def)
qed

text \<open>Pinning a frame that was handed out, or that a page-table entry points at.\<close>

lemma pin_inv:
  assumes tk: "frame_taken bpm v"
    and pin: "0 < pin_count pg" and pid: "page_id pg = page_id (pages bpm ! nat v)"
    and r2: "set (evictable r2) = set (evictable (replacer bpm)) - {v}"
      "node_store r2 v \<noteq> []" "\<forall>g. g \<noteq> v \<longrightarrow> node_store r2 g = node_store (replacer bpm) g"
      "replacer_size r2 = replacer_size (replacer bpm)" "lru_k r2 = lru_k (replacer bpm)"
  shows "bpm_inv (bpm\<lparr> pages := (pages bpm)[nat v := pg], replacer := r2 \<rparr>)"
    (is "bpm_inv ?b")
proof -
  from tk have sh: "shape_ok bpm" and tb: "table_ok bpm" and v: "in_pool bpm v"
    and vf: "v \<notin> set (free_list bpm)"
    and fr: "\<And>f. in_pool bpm f \<and> f \<noteq> v \<Longrightarrow> frame_ok bpm f"
    by (simp_all add: frame_taken_def)
  have len: "nat v < length (pages bpm)" by (rule in_pool_length [OF sh v])
  have v0: "0 \<le> v" using v by (simp add: in_pool_def)
  have nth: "pages ?b ! nat f = (if f = v then pg else pages bpm ! nat f)" if "0 \<le> f" for f
    using that v0 len by (simp add: nth_update_frame)
  have sh1: "shape_ok ?b" using sh r2(1,4,5)
    by (simp add: shape_ok_def in_pool_def)
  have tb1: "table_ok ?b"
    unfolding table_ok_def
  proof (intro allI impI)
    fix p f assume "map_of (page_table ?b) p = Some f"
    then have m: "map_of (page_table bpm) p = Some f" by simp
    note f = table_okD [OF tb m]
    have f0: "0 \<le> f" using f(1) by (simp add: in_pool_def)
    from nth [OF f0] f pid show "in_pool ?b f \<and> page_id (pages ?b ! nat f) = p \<and>
          f \<notin> set (free_list ?b)"
      by (auto simp: in_pool_def)
  qed
  have "frame_ok ?b f" if "in_pool ?b f" for f
  proof (cases "f = v")
    case True
    have "pages ?b ! nat v = pg" using nth [OF v0] by simp
    then show ?thesis unfolding True frame_ok_def
      using pin pid vf r2(1,2) by simp
  next
    case False
    from that False have f: "in_pool bpm f \<and> f \<noteq> v" by (simp add: in_pool_def)
    then have "0 \<le> f" by (simp add: in_pool_def)
    from nth [OF this] f have "frame_ok ?b f = frame_ok bpm f"
      by (intro frame_ok_cong) (auto simp: r2(1,3))
    then show ?thesis using fr [OF f] by simp
  qed
  then show ?thesis using sh1 tb1 by (simp add: bpm_inv_def)
qed

lemma NewPage_inv:
  assumes inv: "bpm_inv bpm"
  shows "\<exists>x. NewPage bpm = Inr x \<and> bpm_inv (snd x)"
proof -
  from FindAndEvictFrame_taken [OF inv] show ?thesis
  proof
    assume "FindAndEvictFrame bpm = Inr (None, bpm)"
    then have "NewPage bpm = Inr (None, bpm)" by (simp add: NewPage_def)
    then show ?thesis using inv by simp
  next
    assume "\<exists>v bpm1. FindAndEvictFrame bpm = Inr (Some v, bpm1) \<and> frame_taken bpm1 v \<and>
            (\<forall>p. map_of (page_table bpm1) p \<noteq> Some v) \<and> next_page_id bpm1 = next_page_id bpm"
    then obtain v bpm1 where f: "FindAndEvictFrame bpm = Inr (Some v, bpm1)"
      and tk: "frame_taken bpm1 v" and un: "\<forall>p. map_of (page_table bpm1) p \<noteq> Some v"
      by blast
    from tk have sh: "shape_ok bpm1" and v: "in_pool bpm1 v" by (simp_all add: frame_taken_def)
    have k: "0 < lru_k (replacer bpm1)" using sh by (simp add: shape_ok_def)
    from pin_frame_in_replacer [OF in_pool_replacer [OF sh v] k] obtain r2 where
      r2: "(case SetEvictable v False (replacer bpm1) of Inl e \<Rightarrow> Inl e
            | Inr r1 \<Rightarrow> RecordAccess v r1) = Inr r2"
        "set (evictable r2) = set (evictable (replacer bpm1)) - {v}"
        "node_store r2 v \<noteq> []" "\<forall>g. g \<noteq> v \<longrightarrow> node_store r2 g = node_store (replacer bpm1) g"
        "replacer_size r2 = replacer_size (replacer bpm1)" "lru_k r2 = lru_k (replacer bpm1)"
      by blast
    define pid where "pid = next_page_id bpm1"
    define pg where "pg = ResetMemory ((pages bpm1 ! nat v)\<lparr> page_id := pid, pin_count := 1 \<rparr>)"
    define bpm2 where "bpm2 = bpm1\<lparr> next_page_id := wrap_page_id (pid + 1),
                           page_table := AList.update pid v (page_table bpm1),
                           pages := (pages bpm1)[nat v := pg] \<rparr>"
    define bpm3 where "bpm3 = bpm2\<lparr> pages := (pages bpm2)[nat v := pg], replacer := r2 \<rparr>"
    have pgf: "page_id pg = pid" "pin_count pg = 1" by (simp_all add: pg_def ResetMemory_def)
    have tk2: "frame_taken bpm2 v"
      unfolding bpm2_def by (rule install_inv [OF tk un pgf(1)])
    have len: "nat v < length (pages bpm1)" by (rule in_pool_length [OF sh v])
    have at: "pages bpm2 ! nat v = pg" using len by (simp add: bpm2_def)
    have "bpm_inv bpm3"
      unfolding bpm3_def using pgf r2(2-6) at
      by (intro pin_inv [OF tk2]) (simp_all add: bpm2_def)
    moreover have "NewPage bpm = Inr (Some (pid, v), bpm3)"
    proof (cases "SetEvictable v False (replacer bpm1)")
      case (Inl e)
      with r2(1) show ?thesis by simp
    next
      case (Inr r1)
      with r2(1) have "RecordAccess v r1 = Inr r2" by simp
      with f Inr show ?thesis
        by (simp add: NewPage_def AllocatePage_def Let_def bpm3_def bpm2_def pg_def pid_def)
    qed
    ultimately show ?thesis by simp
  qed
qed

lemma FetchPage_pin_inv:
  assumes tk: "frame_taken bpm v"
    and pin: "0 \<le> pin_count (pages bpm ! nat v)"
  shows "\<exists>x. FetchPage_pin v bpm = Inr x \<and> bpm_inv (snd x)"
proof -
  from tk have sh: "shape_ok bpm" and v: "in_pool bpm v" by (simp_all add: frame_taken_def)
  have k: "0 < lru_k (replacer bpm)" using sh by (simp add: shape_ok_def)
  from pin_frame_in_replacer [OF in_pool_replacer [OF sh v] k] obtain r2 where
    r2: "(case SetEvictable v False (replacer bpm) of Inl e \<Rightarrow> Inl e
          | Inr r1 \<Rightarrow> RecordAccess v r1) = Inr r2"
      "set (evictable r2) = set (evictable (replacer bpm)) - {v}"
      "node_store r2 v \<noteq> []" "\<forall>g. g \<noteq> v \<longrightarrow> node_store r2 g = node_store (replacer bpm) g"
      "replacer_size r2 = replacer_size (replacer bpm)" "lru_k r2 = lru_k (replacer bpm)"
    by blast
  define pg where "pg = (pages bpm ! nat v)\<lparr> pin_count := pin_count (pages bpm ! nat v) + 1 \<rparr>"
  define bpm3 where "bpm3 = bpm\<lparr> pages := (pages bpm)[nat v := pg], replacer := r2 \<rparr>"
  have "bpm_inv bpm3"
    unfolding bpm3_def using pin r2(2-6)
    by (intro pin_inv [OF tk]) (simp_all add: pg_def)
  moreover have "FetchPage_pin v bpm = Inr (Some v, bpm3)"
  proof (cases "SetEvictable v False (replacer bpm)")
    case (Inl e)
    with r2(1) show ?thesis by simp
  next
    case (Inr r1)
    with r2(1) have "RecordAccess v r1 = Inr r2" by simp
    with Inr show ?thesis
      by (simp add: FetchPage_pin_def Let_def bpm3_def pg_def)
  qed
  ultimately show ?thesis by simp
qed

lemma FetchPage_inv:
  assumes inv: "bpm_inv bpm"
  shows "\<exists>x. FetchPage pid bpm = Inr x \<and> bpm_inv (snd x)"
proof (cases "map_of (page_table bpm) pid")
  case (Some v)
  note sh = bpm_invD(1) [OF inv] and tb = bpm_invD(2) [OF inv] and fr = bpm_invD(3) [OF inv]
  note v = table_okD [OF tb Some]
  note fv = frame_okD [OF fr [OF v(1)]]
  have "frame_taken bpm v"
    unfolding frame_taken_def using sh tb v fr by simp
  from FetchPage_pin_inv [OF this fv(1)] Some show ?thesis
    by (simp add: FetchPage_def)
next
  case None
  from FindAndEvictFrame_taken [OF inv] show ?thesis
  proof
    assume "FindAndEvictFrame bpm = Inr (None, bpm)"
    then have "FetchPage pid bpm = Inr (None, bpm)" using None by (simp add: FetchPage_def)
    then show ?thesis using inv by simp
  next
    assume "\<exists>v bpm1. FindAndEvictFrame bpm = Inr (Some v, bpm1) \<and> frame_taken bpm1 v \<and>
            (\<forall>p. map_of (page_table bpm1) p \<noteq> Some v) \<and> next_page_id bpm1 = next_page_id bpm"
    then obtain v bpm1 where f: "FindAndEvictFrame bpm = Inr (Some v, bpm1)"
      and tk: "frame_taken bpm1 v" and un: "\<forall>p. map_of (page_table bpm1) p \<noteq> Some v"
      by blast
    from tk have sh: "shape_ok bpm1" and v: "in_pool bpm1 v" by (simp_all add: frame_taken_def)
    define pg where "pg = (pages bpm1 ! nat v)\<lparr> data := ReadPage pid (disk_manager bpm1),
                                                 page_id := pid, pin_count := 0 \<rparr>"
    define bpm2 where "bpm2 = bpm1\<lparr> next_page_id := next_page_id bpm1,
                           page_table := AList.update pid v (page_table bpm1),
                           pages := (pages bpm1)[nat v := pg] \<rparr>"
    have tk2: "frame_taken bpm2 v"
      unfolding bpm2_def by (rule install_inv [OF tk un]) (simp add: pg_def)
    have len: "nat v < length (pages bpm1)" by (rule in_pool_length [OF sh v])
    have at: "pages bpm2 ! nat v = pg" using len by (simp add: bpm2_def)
    have "\<exists>x. FetchPage_pin v bpm2 = Inr x \<and> bpm_inv (snd x)"
      using at by (intro FetchPage_pin_inv [OF tk2]) (simp_all add: pg_def)
    moreover have "bpm2 = bpm1\<lparr> pages := (pages bpm1)[nat v := pg],
                                  page_table := AList.update pid v (page_table bpm1) \<rparr>"
      unfolding bpm2_def by (cases bpm1) simp
    then have "FetchPage pid bpm = FetchPage_pin v bpm2"
      using None f by (simp add: FetchPage_def Let_def pg_def)
    ultimately show ?thesis by simp
  qed
qed


lemma bpm_step_inv:
  assumes inv: "bpm_inv bpm"
  shows "\<exists>x. bpm_step c bpm = Inr x \<and> bpm_inv (snd x)"
proof (cases c)
  case CallNewPage
  from NewPage_inv [OF inv] obtain x where "NewPage bpm = Inr x" "bpm_inv (snd x)" by blast
  then show ?thesis using CallNewPage by (cases x) simp
next
  case (CallFetchPage pid)
  from FetchPage_inv [OF inv] obtain x where
    "FetchPage pid bpm = Inr x" "bpm_inv (snd x)" by blast
  then show ?thesis using CallFetchPage by (cases x) simp
next
  case (CallUnpinPage pid dirty)
  from UnpinPage_inv [OF inv] obtain x where
    "UnpinPage pid dirty bpm = Inr x" "bpm_inv (snd x)" by blast
  then show ?thesis using CallUnpinPage by (cases x) simp
next
  case (CallFlushPage pid)
  with FlushPage_inv [OF inv, of pid] show ?thesis by (cases "FlushPage pid bpm") simp
next
  case CallFlushAllPages
  with FlushAllPages_inv [OF inv] show ?thesis by simp
next
  case (CallDeletePage pid)
  with DeletePage_inv [OF inv, of pid] show ?thesis by (cases "DeletePage pid bpm") simp
next
  case (CallerWrites pid bytes)
  with CallerWritesData_inv [OF inv] show ?thesis by simp
qed

lemma bpm_run_inv:
  assumes "bpm_inv bpm"
  shows "\<exists>x. bpm_run cs bpm = Inr x \<and> bpm_inv (snd x)"
  using assms
proof (induction cs arbitrary: bpm)
  case Nil
  then show ?case by simp
next
  case (Cons c cs)
  from bpm_step_inv [OF Cons.prems, of c] obtain res bpm1 where
    s: "bpm_step c bpm = Inr (res, bpm1)" "bpm_inv bpm1" by auto
  from Cons.IH [OF s(2)] obtain ress bpm2 where
    r: "bpm_run cs bpm1 = Inr (ress, bpm2)" "bpm_inv bpm2" by auto
  from s(1) r show ?case by simp
qed

section \<open>Write-back before a page leaves the pool\<close>

lemma same_residents_refl: "same_residents bpm bpm"
  by (simp add: same_residents_def)

lemma same_residents_trans:
  "same_residents a b \<Longrightarrow> same_residents b c \<Longrightarrow> same_residents a c"
  by (simp add: same_residents_def)

lemma same_residents_ok:
  assumes "same_residents bpm bpm'" and "resident_ok bpm"
  shows "resident_ok bpm'"
  using assms by (simp add: same_residents_def resident_ok_def in_pool_def)

lemma same_residents_written_back: "same_residents bpm bpm' \<Longrightarrow> written_back bpm bpm'"
  by (auto simp: same_residents_def written_back_def)

lemma page_update_same_residents:
  assumes "page_id pg = page_id (pages bpm ! i)"
  shows "same_residents bpm (bpm\<lparr> disk_manager := d, pages := (pages bpm)[i := pg] \<rparr>)"
proof -
  have "page_id ((pages bpm)[i := pg] ! j) = page_id (pages bpm ! j)" for j
    using assms by (cases "i < length (pages bpm)"; cases "j = i") (simp_all add: list_update_beyond)
  then show ?thesis by (simp add: same_residents_def)
qed

lemma page_update_same_residents2:
  assumes "page_id pg = page_id (pages bpm ! i)"
  shows "same_residents bpm (bpm\<lparr> pages := (pages bpm)[i := pg] \<rparr>)"
    and "same_residents bpm (bpm\<lparr> pages := (pages bpm)[i := pg], replacer := r \<rparr>)"
proof -
  from page_update_same_residents [OF assms, of "disk_manager bpm"]
  show "same_residents bpm (bpm\<lparr> pages := (pages bpm)[i := pg] \<rparr>)" by simp
  then show "same_residents bpm (bpm\<lparr> pages := (pages bpm)[i := pg], replacer := r \<rparr>)"
    by (simp add: same_residents_def)
qed

lemma UnpinPage_same_residents:
  assumes "UnpinPage pid dirty bpm = Inr (res, bpm')"
  shows "same_residents bpm bpm'"
  using assms
  by (auto simp: UnpinPage_def Let_def same_residents_refl page_update_same_residents2
           split: option.splits if_splits sum.splits)

lemma FlushPage_same_residents: "same_residents bpm (snd (FlushPage pid bpm))"
  by (cases "map_of (page_table bpm) pid")
     (simp_all add: FlushPage_def Let_def same_residents_refl page_update_same_residents)

lemma FlushAllPages_body_same_residents: "same_residents bpm (FlushAllPages_body entry bpm)"
  by (cases entry) (simp add: FlushAllPages_body_def Let_def page_update_same_residents)

lemma fold_FlushAllPages_body_same_residents:
  "same_residents bpm (fold FlushAllPages_body entries bpm)"
proof (induction entries arbitrary: bpm)
  case Nil
  show ?case by (simp add: same_residents_refl)
next
  case (Cons e es)
  from same_residents_trans [OF FlushAllPages_body_same_residents Cons.IH]
  show ?case by simp
qed

lemma FlushAllPages_same_residents: "same_residents bpm (FlushAllPages bpm)"
  by (simp add: FlushAllPages_def fold_FlushAllPages_body_same_residents)

lemma CallerWritesData_same_residents: "same_residents bpm (CallerWritesData pid bytes bpm)"
proof (cases "map_of (page_table bpm) pid")
  case None
  then show ?thesis by (simp add: CallerWritesData_def same_residents_refl)
next
  case (Some v)
  have "same_residents bpm (bpm\<lparr> disk_manager := disk_manager bpm,
           pages := (pages bpm)[nat v := (pages bpm ! nat v)\<lparr> data := bytes \<rparr>] \<rparr>)"
    by (rule page_update_same_residents) simp
  then show ?thesis using Some by (simp add: CallerWritesData_def)
qed


lemma resident_okD:
  assumes "resident_ok bpm"
  shows "\<And>p f. map_of (page_table bpm) p = Some f \<Longrightarrow> p < next_page_id bpm"
    and "\<And>f. in_pool bpm f \<Longrightarrow> f \<notin> set (free_list bpm) \<Longrightarrow>
           map_of (page_table bpm) (page_id (pages bpm ! nat f)) = Some f"
  using assms unfolding resident_ok_def by blast+

lemma resident_ok_new: "resident_ok (BufferPoolManager_new n disk k)"
  by (auto simp: resident_ok_def BufferPoolManager_new_def in_pool_def int_image_upt)

lemma DeletePage_resident:
  assumes inv: "bpm_inv bpm" and res: "resident_ok bpm"
  shows "resident_ok (snd (DeletePage pid bpm)) \<and> written_back bpm (snd (DeletePage pid bpm))"
proof (cases "map_of (page_table bpm) pid")
  case None
  then show ?thesis using res
    by (simp add: DeletePage_def same_residents_written_back same_residents_refl)
next
  case (Some v)
  note sh = bpm_invD(1) [OF inv] and tb = bpm_invD(2) [OF inv]
  note v = table_okD [OF tb Some]
  have len: "nat v < length (pages bpm)" by (rule in_pool_length [OF sh v(1)])
  have v0: "0 \<le> v" using v(1) by (simp add: in_pool_def)
  show ?thesis
  proof (cases "1 \<le> pin_count (pages bpm ! nat v)")
    case True
    then show ?thesis using res Some
      by (simp add: DeletePage_def Let_def same_residents_written_back same_residents_refl)
  next
    case False
    define pg1 where "pg1 = ResetMemory (if is_dirty (pages bpm ! nat v)
                              then (pages bpm ! nat v)\<lparr> is_dirty := False \<rparr> else pages bpm ! nat v)"
    define bpm1 where
      "bpm1 = bpm\<lparr> disk_manager := (if is_dirty (pages bpm ! nat v)
                                      then WritePage pid (data (pages bpm ! nat v)) (disk_manager bpm)
                                      else disk_manager bpm),
                    page_table := AList.delete pid (page_table bpm),
                    pages := (pages bpm)[nat v := pg1],
                    replacer := Remove v (replacer bpm),
                    free_list := free_list bpm @ [v] \<rparr>"
    have eq: "DeletePage pid bpm = (True, bpm1)"
      using Some False by (simp add: DeletePage_def Let_def bpm1_def pg1_def)
    have nth: "pages bpm1 ! nat f = (if f = v then pg1 else pages bpm ! nat f)" if "0 \<le> f" for f
      using that v0 len by (simp add: bpm1_def nth_update_frame)
    have r1: "p < next_page_id bpm1" if "map_of (page_table bpm1) p = Some f" for p f
    proof -
      from that have "map_of (page_table bpm) p = Some f"
        by (auto simp: bpm1_def delete_conv' split: if_splits)
      from resident_okD(1) [OF res this] show ?thesis by (simp add: bpm1_def)
    qed
    have r2: "map_of (page_table bpm1) (page_id (pages bpm1 ! nat f)) = Some f"
      if "in_pool bpm1 f \<and> f \<notin> set (free_list bpm1)" for f
    proof -
      from that have f: "in_pool bpm f" "f \<notin> set (free_list bpm)" "f \<noteq> v"
        by (auto simp: bpm1_def in_pool_def)
      then have f0: "0 \<le> f" by (simp add: in_pool_def)
      note m = resident_okD(2) [OF res f(1,2)]
      have "page_id (pages bpm ! nat f) \<noteq> pid" using m Some f(3) by auto
      with m nth [OF f0] f(3) show ?thesis by (simp add: bpm1_def delete_conv')
    qed
    have wb: "written_back bpm bpm1"
      unfolding written_back_def
    proof (intro allI impI)
      fix p f
      assume a: "map_of (page_table bpm) p = Some f \<and> is_dirty (pages bpm ! nat f) \<and>
                 map_of (page_table bpm1) p = None"
      then have "p = pid" by (auto simp: bpm1_def delete_conv' split: if_splits)
      with a Some have "f = v" by simp
      with a \<open>p = pid\<close> show "\<exists>ws. disk_manager bpm1 = disk_manager bpm @ ws \<and>
              (p, data (pages bpm ! nat f)) \<in> set ws"
        by (simp add: bpm1_def WritePage_def)
    qed
    have "resident_ok bpm1" unfolding resident_ok_def using r1 r2 by blast
    with wb eq show ?thesis by simp
  qed
qed

text \<open>The three ways \<^verbatim>\<open>FindAndEvictFrame\<close> can go, with the state each leaves.\<close>

lemma FindAndEvictFrame_cases:
  assumes inv: "bpm_inv bpm"
  shows "(free_list bpm = [] \<and> FindAndEvictFrame bpm = Inr (None, bpm)) \<or>
         (\<exists>x rest. free_list bpm = x # rest \<and>
            FindAndEvictFrame bpm = Inr (Some x, bpm\<lparr> free_list := rest \<rparr>)) \<or>
         (\<exists>v r'. free_list bpm = [] \<and> v \<in> set (evictable (replacer bpm)) \<and>
            FindAndEvictFrame bpm =
              Inr (Some v,
                   bpm\<lparr> replacer := r',
                        page_table := AList.delete (page_id (pages bpm ! nat v)) (page_table bpm),
                        disk_manager :=
                          (if is_dirty (pages bpm ! nat v)
                           then WritePage (page_id (pages bpm ! nat v)) (data (pages bpm ! nat v))
                                  (disk_manager bpm)
                           else disk_manager bpm),
                        pages := (pages bpm)[nat v :=
                          ResetMemory ((if is_dirty (pages bpm ! nat v)
                                        then (pages bpm ! nat v)\<lparr> is_dirty := False \<rparr>
                                        else pages bpm ! nat v)\<lparr> page_id := INVALID_PAGE_ID \<rparr>)] \<rparr>))"
proof (cases "free_list bpm")
  case (Cons x rest)
  then show ?thesis by (simp add: FindAndEvictFrame_def)
next
  case Nil
  note sh = bpm_invD(1) [OF inv] and fr = bpm_invD(3) [OF inv]
  have hist: "\<forall>f\<in>set (evictable (replacer bpm)). node_store (replacer bpm) f \<noteq> []"
  proof
    fix f assume "f \<in> set (evictable (replacer bpm))"
    with sh have "in_pool bpm f" by (simp add: shape_ok_def)
    from frame_okD(4) [OF fr [OF this]] Nil show "node_store (replacer bpm) f \<noteq> []" by simp
  qed
  show ?thesis
  proof (cases "evictable (replacer bpm) = []")
    case True
    with Evict_chooses [OF hist] have "Evict (replacer bpm) = Inr (None, replacer bpm)" by simp
    then show ?thesis using Nil by (simp add: FindAndEvictFrame_def)
  next
    case False
    with Evict_chooses [OF hist] obtain v r' where
      ev: "Evict (replacer bpm) = Inr (Some v, r')" "v \<in> set (evictable (replacer bpm))"
      by blast
    have "FindAndEvictFrame bpm =
              Inr (Some v,
                   bpm\<lparr> replacer := r',
                        page_table := AList.delete (page_id (pages bpm ! nat v)) (page_table bpm),
                        disk_manager :=
                          (if is_dirty (pages bpm ! nat v)
                           then WritePage (page_id (pages bpm ! nat v)) (data (pages bpm ! nat v))
                                  (disk_manager bpm)
                           else disk_manager bpm),
                        pages := (pages bpm)[nat v :=
                          ResetMemory ((if is_dirty (pages bpm ! nat v)
                                        then (pages bpm ! nat v)\<lparr> is_dirty := False \<rparr>
                                        else pages bpm ! nat v)\<lparr> page_id := INVALID_PAGE_ID \<rparr>)] \<rparr>)"
      using Nil ev(1) by (simp add: FindAndEvictFrame_def Let_def)
    with Nil ev(2) show ?thesis by blast
  qed
qed

text \<open>
  After \<^verbatim>\<open>FindAndEvictFrame\<close> has handed out frame \<open>v\<close>: the page that was in \<open>v\<close> was written
  if it was dirty, no other page left the table, and every other frame off the free list
  is still the frame of its page.
\<close>

lemma FindAndEvictFrame_resident:
  assumes inv: "bpm_inv bpm" and res: "resident_ok bpm"
    and eq: "FindAndEvictFrame bpm = Inr (Some v, bpm1)"
  shows "written_back bpm bpm1"
    and "next_page_id bpm1 = next_page_id bpm"
    and "\<And>p f. map_of (page_table bpm1) p = Some f \<Longrightarrow> map_of (page_table bpm) p = Some f"
    and "\<And>f. in_pool bpm1 f \<Longrightarrow> f \<noteq> v \<Longrightarrow> f \<notin> set (free_list bpm1) \<Longrightarrow>
           map_of (page_table bpm1) (page_id (pages bpm1 ! nat f)) = Some f"
proof -
  note sh = bpm_invD(1) [OF inv] and tb = bpm_invD(2) [OF inv]
  from FindAndEvictFrame_cases [OF inv] eq consider
    (free) rest where "free_list bpm = v # rest" "bpm1 = bpm\<lparr> free_list := rest \<rparr>"
  | (evict) r' where "free_list bpm = []" "v \<in> set (evictable (replacer bpm))"
      "bpm1 = bpm\<lparr> replacer := r',
                  page_table := AList.delete (page_id (pages bpm ! nat v)) (page_table bpm),
                  disk_manager :=
                    (if is_dirty (pages bpm ! nat v)
                     then WritePage (page_id (pages bpm ! nat v)) (data (pages bpm ! nat v))
                            (disk_manager bpm)
                     else disk_manager bpm),
                  pages := (pages bpm)[nat v :=
                    ResetMemory ((if is_dirty (pages bpm ! nat v)
                                  then (pages bpm ! nat v)\<lparr> is_dirty := False \<rparr>
                                  else pages bpm ! nat v)\<lparr> page_id := INVALID_PAGE_ID \<rparr>)] \<rparr>"
    by auto
  then have all: "written_back bpm bpm1 \<and> next_page_id bpm1 = next_page_id bpm \<and>
    (\<forall>p f. map_of (page_table bpm1) p = Some f \<longrightarrow> map_of (page_table bpm) p = Some f) \<and>
    (\<forall>f. in_pool bpm1 f \<and> f \<noteq> v \<and> f \<notin> set (free_list bpm1) \<longrightarrow>
           map_of (page_table bpm1) (page_id (pages bpm1 ! nat f)) = Some f)"
  proof cases
    case free
    have "map_of (page_table bpm1) (page_id (pages bpm1 ! nat f)) = Some f"
      if "in_pool bpm1 f \<and> f \<noteq> v \<and> f \<notin> set (free_list bpm1)" for f
    proof -
      from that free have "in_pool bpm f" "f \<notin> set (free_list bpm)" by (simp_all add: in_pool_def)
      from resident_okD(2) [OF res this] free show ?thesis by simp
    qed
    then show ?thesis using free by (auto simp: written_back_def)
  next
    case evict
    have v: "in_pool bpm v" using sh evict(2) by (simp add: shape_ok_def)
    have len: "nat v < length (pages bpm)" by (rule in_pool_length [OF sh v])
    have v0: "0 \<le> v" using v by (simp add: in_pool_def)
    have mv: "map_of (page_table bpm) (page_id (pages bpm ! nat v)) = Some v"
      using resident_okD(2) [OF res v] evict(1) by simp
    have nth: "pages bpm1 ! nat f = pages bpm ! nat f" if "0 \<le> f" "f \<noteq> v" for f
      using that v0 len by (simp add: evict(3) nth_update_frame)
    have sub: "map_of (page_table bpm) p = Some f" if "map_of (page_table bpm1) p = Some f" for p f
      using that by (auto simp: evict(3) delete_conv' split: if_splits)
    have r2: "map_of (page_table bpm1) (page_id (pages bpm1 ! nat f)) = Some f"
      if "in_pool bpm1 f \<and> f \<noteq> v \<and> f \<notin> set (free_list bpm1)" for f
    proof -
      from that have f: "in_pool bpm f" "f \<notin> set (free_list bpm)" "f \<noteq> v"
        by (simp_all add: evict(3) in_pool_def)
      then have f0: "0 \<le> f" by (simp add: in_pool_def)
      note m = resident_okD(2) [OF res f(1,2)]
      have "page_id (pages bpm ! nat f) \<noteq> page_id (pages bpm ! nat v)" using m mv f(3) by auto
      with m nth [OF f0 f(3)] show ?thesis by (simp add: evict(3) delete_conv')
    qed
    have wb: "written_back bpm bpm1"
      unfolding written_back_def
    proof (intro allI impI)
      fix p f
      assume a: "map_of (page_table bpm) p = Some f \<and> is_dirty (pages bpm ! nat f) \<and>
                 map_of (page_table bpm1) p = None"
      then have p: "p = page_id (pages bpm ! nat v)"
        by (auto simp: evict(3) delete_conv' split: if_splits)
      with a mv have "f = v" by simp
      with a p show "\<exists>ws. disk_manager bpm1 = disk_manager bpm @ ws \<and>
              (p, data (pages bpm ! nat f)) \<in> set ws"
        by (simp add: evict(3) WritePage_def)
    qed
    show ?thesis using wb sub r2 by (auto simp: evict(3))
  qed
  from all show "written_back bpm bpm1" by blast
  from all show "next_page_id bpm1 = next_page_id bpm" by blast
  from all show "\<And>p f. map_of (page_table bpm1) p = Some f \<Longrightarrow> map_of (page_table bpm) p = Some f"
    by blast
  from all show "\<And>f. in_pool bpm1 f \<Longrightarrow> f \<noteq> v \<Longrightarrow> f \<notin> set (free_list bpm1) \<Longrightarrow>
           map_of (page_table bpm1) (page_id (pages bpm1 ! nat f)) = Some f"
    by blast
qed


lemma written_back_cong:
  "written_back a b \<Longrightarrow> page_table c = page_table b \<Longrightarrow> disk_manager c = disk_manager b \<Longrightarrow>
     written_back a c"
  by (simp add: written_back_def)

lemma FindAndEvictFrame_None:
  assumes inv: "bpm_inv bpm" and eq: "FindAndEvictFrame bpm = Inr (None, bpm')"
  shows "bpm' = bpm"
  using FindAndEvictFrame_cases [OF inv] eq by auto

lemma FindAndEvictFrame_Some:
  assumes inv: "bpm_inv bpm" and eq: "FindAndEvictFrame bpm = Inr (Some v, bpm1)"
  shows "frame_taken bpm1 v"
  using FindAndEvictFrame_taken [OF inv] eq by auto

lemma install_resident:
  assumes inv: "bpm_inv bpm" and res: "resident_ok bpm"
    and eq: "FindAndEvictFrame bpm = Inr (Some v, bpm1)"
    and fresh: "map_of (page_table bpm) pid = None"
    and b: "page_table b = AList.update pid v (page_table bpm1)" "free_list b = free_list bpm1"
      "pool_size b = pool_size bpm1" "next_page_id b = n" "disk_manager b = disk_manager bpm1"
      "pages b = (pages bpm1)[nat v := pg]" "page_id pg = pid"
  shows "written_back bpm b \<and> (pid < n \<and> next_page_id bpm \<le> n \<longrightarrow> resident_ok b)"
proof -
  note tk = FindAndEvictFrame_Some [OF inv eq]
  note fe = FindAndEvictFrame_resident [OF inv res eq]
  from tk have sh: "shape_ok bpm1" and v: "in_pool bpm1 v" by (simp_all add: frame_taken_def)
  have len: "nat v < length (pages bpm1)" by (rule in_pool_length [OF sh v])
  have v0: "0 \<le> v" using v by (simp add: in_pool_def)
  have nth: "pages b ! nat f = (if f = v then pg else pages bpm1 ! nat f)" if "0 \<le> f" for f
    using that v0 len by (simp add: b(6) nth_update_frame)
  have r1: "p < next_page_id b"
    if "map_of (page_table b) p = Some f" and lt: "pid < n" and n: "next_page_id bpm \<le> n" for p f
  proof (cases "p = pid")
    case True
    with lt b(4) show ?thesis by simp
  next
    case False
    with that(1) have "map_of (page_table bpm1) p = Some f" by (simp add: b(1) update_conv')
    from resident_okD(1) [OF res fe(3) [OF this]] n b(4) show ?thesis by simp
  qed
  have r2: "map_of (page_table b) (page_id (pages b ! nat f)) = Some f"
    if "in_pool b f \<and> f \<notin> set (free_list b)" for f
  proof (cases "f = v")
    case True
    with nth [OF v0] b(7) show ?thesis by (simp add: b(1) update_conv')
  next
    case False
    from that have f: "in_pool bpm1 f" "f \<notin> set (free_list bpm1)"
      by (simp_all add: in_pool_def b(2,3))
    then have f0: "0 \<le> f" by (simp add: in_pool_def)
    note m = fe(4) [OF f(1) False f(2)]
    from fe(3) [OF m] fresh have "page_id (pages bpm1 ! nat f) \<noteq> pid" by auto
    with m nth [OF f0] False show ?thesis by (simp add: b(1) update_conv')
  qed
  have wb: "written_back bpm b"
    unfolding written_back_def
  proof (intro allI impI)
    fix p f
    assume a: "map_of (page_table bpm) p = Some f \<and> is_dirty (pages bpm ! nat f) \<and>
               map_of (page_table b) p = None"
    then have "map_of (page_table bpm1) p = None"
      by (auto simp: b(1) update_conv' split: if_splits)
    with a fe(1) show "\<exists>ws. disk_manager b = disk_manager bpm @ ws \<and>
            (p, data (pages bpm ! nat f)) \<in> set ws"
      unfolding written_back_def b(5) by blast
  qed
  have "resident_ok b" if "pid < n \<and> next_page_id bpm \<le> n"
    unfolding resident_ok_def using r1 r2 that by blast
  with wb show ?thesis by simp
qed

lemma NewPage_fields:
  assumes "NewPage bpm = Inr (res, bpm')"
  shows "(res = None \<and> FindAndEvictFrame bpm = Inr (None, bpm')) \<or>
         (\<exists>v bpm1. FindAndEvictFrame bpm = Inr (Some v, bpm1) \<and>
            res = Some (next_page_id bpm1, v) \<and>
            page_table bpm' = AList.update (next_page_id bpm1) v (page_table bpm1) \<and>
            free_list bpm' = free_list bpm1 \<and> pool_size bpm' = pool_size bpm1 \<and>
            next_page_id bpm' = wrap_page_id (next_page_id bpm1 + 1) \<and>
            disk_manager bpm' = disk_manager bpm1 \<and>
            pages bpm' = (pages bpm1)[nat v :=
              ResetMemory ((pages bpm1 ! nat v)\<lparr> page_id := next_page_id bpm1, pin_count := 1 \<rparr>)])"
  using assms
  by (auto simp: NewPage_def AllocatePage_def Let_def
           split: sum.splits option.splits prod.splits)

lemma NewPage_resident:
  assumes inv: "bpm_inv bpm" and res: "resident_ok bpm" and eq: "NewPage bpm = Inr (r, bpm')"
  shows "written_back bpm bpm' \<and>
         ((r \<noteq> None \<longrightarrow>
             - 2147483648 \<le> next_page_id bpm \<and> next_page_id bpm < 2147483647) \<longrightarrow>
          resident_ok bpm')"
proof -
  from NewPage_fields [OF eq] show ?thesis
  proof
    assume "r = None \<and> FindAndEvictFrame bpm = Inr (None, bpm')"
    with FindAndEvictFrame_None [OF inv] have "bpm' = bpm" by blast
    with res show ?thesis by (simp add: same_residents_written_back same_residents_refl)
  next
    assume "\<exists>v bpm1. FindAndEvictFrame bpm = Inr (Some v, bpm1) \<and>
            r = Some (next_page_id bpm1, v) \<and>
            page_table bpm' = AList.update (next_page_id bpm1) v (page_table bpm1) \<and>
            free_list bpm' = free_list bpm1 \<and> pool_size bpm' = pool_size bpm1 \<and>
            next_page_id bpm' = wrap_page_id (next_page_id bpm1 + 1) \<and>
            disk_manager bpm' = disk_manager bpm1 \<and>
            pages bpm' = (pages bpm1)[nat v :=
              ResetMemory ((pages bpm1 ! nat v)\<lparr> page_id := next_page_id bpm1, pin_count := 1 \<rparr>)]"
    then obtain v bpm1 where f: "FindAndEvictFrame bpm = Inr (Some v, bpm1)"
      and rs: "r = Some (next_page_id bpm1, v)"
      and b: "page_table bpm' = AList.update (next_page_id bpm1) v (page_table bpm1)"
        "free_list bpm' = free_list bpm1" "pool_size bpm' = pool_size bpm1"
        "next_page_id bpm' = wrap_page_id (next_page_id bpm1 + 1)"
        "disk_manager bpm' = disk_manager bpm1"
        "pages bpm' = (pages bpm1)[nat v :=
              ResetMemory ((pages bpm1 ! nat v)\<lparr> page_id := next_page_id bpm1, pin_count := 1 \<rparr>)]"
      by blast
    have n: "next_page_id bpm1 = next_page_id bpm"
      by (rule FindAndEvictFrame_resident(2) [OF inv res f])
    have fresh: "map_of (page_table bpm) (next_page_id bpm1) = None"
    proof (cases "map_of (page_table bpm) (next_page_id bpm1)")
      case None
      then show ?thesis .
    next
      case (Some g)
      from resident_okD(1) [OF res this] n show ?thesis by simp
    qed
    have pg: "page_id (ResetMemory ((pages bpm1 ! nat v)
                \<lparr> page_id := next_page_id bpm1, pin_count := 1 \<rparr>)) = next_page_id bpm1"
      by (simp add: ResetMemory_def)
    note ir = install_resident [OF inv res f fresh b pg]
    have "wrap_page_id (next_page_id bpm1 + 1) = next_page_id bpm1 + 1"
      if "- 2147483648 \<le> next_page_id bpm \<and> next_page_id bpm < 2147483647"
      using that n by (simp add: wrap_page_id_id)
    with ir n rs show ?thesis by simp
  qed
qed

lemma FetchPage_pin_fields:
  assumes "FetchPage_pin v bpm = Inr (res, bpm')"
  shows "page_table bpm' = page_table bpm \<and> disk_manager bpm' = disk_manager bpm \<and>
         same_residents bpm bpm'"
  using assms
  by (auto simp: FetchPage_pin_def Let_def page_update_same_residents2 split: sum.splits)

lemma FetchPage_resident:
  assumes inv: "bpm_inv bpm" and res: "resident_ok bpm"
    and pid: "0 \<le> pid \<and> pid < next_page_id bpm"
    and eq: "FetchPage pid bpm = Inr (r, bpm')"
  shows "resident_ok bpm' \<and> written_back bpm bpm'"
proof (cases "map_of (page_table bpm) pid")
  case (Some v)
  with eq have "FetchPage_pin v bpm = Inr (r, bpm')" by (simp add: FetchPage_def)
  from FetchPage_pin_fields [OF this] have "same_residents bpm bpm'" by simp
  with res show ?thesis by (simp add: same_residents_ok same_residents_written_back)
next
  case None
  show ?thesis
  proof (cases "FindAndEvictFrame bpm")
    case (Inl e)
    with eq None show ?thesis by (simp add: FetchPage_def)
  next
    case (Inr x)
    obtain fr bpm1 where x: "x = (fr, bpm1)" by (cases x)
    show ?thesis
    proof (cases fr)
      case N: None
      with Inr x FindAndEvictFrame_None [OF inv] have "bpm1 = bpm" by simp
      with eq None Inr x N have "bpm' = bpm" by (simp add: FetchPage_def)
      with res show ?thesis by (simp add: same_residents_written_back same_residents_refl)
    next
      case (Some v)
      define b where "b = bpm1\<lparr> pages := (pages bpm1)[nat v := (pages bpm1 ! nat v)
              \<lparr> data := ReadPage pid (disk_manager bpm1), page_id := pid, pin_count := 0 \<rparr>],
            page_table := AList.update pid v (page_table bpm1) \<rparr>"
      from Inr x Some have f: "FindAndEvictFrame bpm = Inr (Some v, bpm1)" by simp
      with eq None have pin: "FetchPage_pin v b = Inr (r, bpm')"
        by (simp add: FetchPage_def Let_def b_def)
      have n: "next_page_id bpm1 = next_page_id bpm"
        by (rule FindAndEvictFrame_resident(2) [OF inv res f])
      define pg where "pg = (pages bpm1 ! nat v)
              \<lparr> data := ReadPage pid (disk_manager bpm1), page_id := pid, pin_count := 0 \<rparr>"
      have lt: "pid < next_page_id bpm" using pid by simp
      have b: "page_table b = AList.update pid v (page_table bpm1)" "free_list b = free_list bpm1"
        "pool_size b = pool_size bpm1" "next_page_id b = next_page_id bpm"
        "disk_manager b = disk_manager bpm1" "pages b = (pages bpm1)[nat v := pg]"
        "page_id pg = pid"
        by (simp_all add: b_def pg_def n)
      have "resident_ok b \<and> written_back bpm b"
        using install_resident [OF inv res f None b] lt by simp
      moreover note FetchPage_pin_fields [OF pin]
      ultimately show ?thesis
        by (auto intro: same_residents_ok written_back_cong)
    qed
  qed
qed

lemma bpm_step_resident:
  assumes inv: "bpm_inv bpm" and res: "resident_ok bpm" and c: "fetches_allocated c bpm"
  shows "\<exists>r bpm'. bpm_step c bpm = Inr (r, bpm') \<and> bpm_inv bpm' \<and> written_back bpm bpm' \<and>
           ((is_allocation r \<longrightarrow>
               - 2147483648 \<le> next_page_id bpm \<and> next_page_id bpm < 2147483647) \<longrightarrow>
            resident_ok bpm')"
proof -
  from bpm_step_inv [OF inv, of c] obtain r bpm' where
    s: "bpm_step c bpm = Inr (r, bpm')" and inv': "bpm_inv bpm'" by auto
  have "written_back bpm bpm' \<and>
        ((is_allocation r \<longrightarrow>
            - 2147483648 \<le> next_page_id bpm \<and> next_page_id bpm < 2147483647) \<longrightarrow>
         resident_ok bpm')"
  proof (cases c)
    case CallNewPage
    with s obtain x where x: "NewPage bpm = Inr (x, bpm')" "r = NewPageReturned x"
      by (auto split: sum.splits)
    from NewPage_resident [OF inv res x(1)] x(2) show ?thesis
      by (cases x) (auto simp: is_allocation_iff)
  next
    case (CallFetchPage pid)
    with s obtain x where "FetchPage pid bpm = Inr (x, bpm')" by (auto split: sum.splits)
    moreover from c CallFetchPage have "0 \<le> pid \<and> pid < next_page_id bpm" by simp
    ultimately have "resident_ok bpm' \<and> written_back bpm bpm'"
      by (intro FetchPage_resident [OF inv res])
    then show ?thesis by simp
  next
    case (CallUnpinPage pid dirty)
    with s obtain x where "UnpinPage pid dirty bpm = Inr (x, bpm')" by (auto split: sum.splits)
    from UnpinPage_same_residents [OF this] res show ?thesis
      by (simp add: same_residents_ok same_residents_written_back)
  next
    case (CallFlushPage pid)
    with s have "bpm' = snd (FlushPage pid bpm)" by (auto split: prod.splits)
    with FlushPage_same_residents [of bpm pid] res show ?thesis
      by (simp add: same_residents_ok same_residents_written_back)
  next
    case CallFlushAllPages
    with s have "bpm' = FlushAllPages bpm" by simp
    with FlushAllPages_same_residents [of bpm] res show ?thesis
      by (simp add: same_residents_ok same_residents_written_back)
  next
    case (CallDeletePage pid)
    with s have "bpm' = snd (DeletePage pid bpm)" by (auto split: prod.splits)
    with DeletePage_resident [OF inv res, of pid] show ?thesis by simp
  next
    case (CallerWrites pid bytes)
    with s have "bpm' = CallerWritesData pid bytes bpm" by simp
    with CallerWritesData_same_residents [of bpm pid bytes] res show ?thesis
      by (simp add: same_residents_ok same_residents_written_back)
  qed
  with s inv' show ?thesis by blast
qed

text \<open>
  As long as the run does not use up the page ids below the bound, every resident page id
  has been allocated and every frame off the free list is the frame of its page.
\<close>

lemma bpm_run_resident:
  assumes "bpm_inv bpm" and "resident_ok bpm"
    and "- 2147483648 \<le> next_page_id bpm"
    and "next_page_id bpm + int (allocations ress) \<le> 2147483647"
    and "run_fetches_allocated cs bpm"
    and "bpm_run cs bpm = Inr (ress, bpm')"
  shows "bpm_inv bpm' \<and> resident_ok bpm'"
  using assms
proof (induction cs arbitrary: bpm ress)
  case Nil
  then show ?case by simp
next
  case (Cons c cs)
  from Cons.prems(5) have c: "fetches_allocated c bpm" by simp
  from bpm_step_resident [OF Cons.prems(1,2) c] obtain r bpm1 where
    s: "bpm_step c bpm = Inr (r, bpm1)" "bpm_inv bpm1"
    and r1: "(is_allocation r \<longrightarrow>
               - 2147483648 \<le> next_page_id bpm \<and> next_page_id bpm < 2147483647) \<longrightarrow>
             resident_ok bpm1"
    by blast
  from Cons.prems(6) s(1) obtain rs where
    rs: "bpm_run cs bpm1 = Inr (rs, bpm')" "ress = r # rs"
    by (auto split: sum.splits)
  from Cons.prems(3,4) rs(2) have "is_allocation r \<longrightarrow>
      - 2147483648 \<le> next_page_id bpm \<and> next_page_id bpm < 2147483647"
    by (cases "is_allocation r") (simp_all add: allocations_Cons)
  with r1 have res1: "resident_ok bpm1" by simp
  from bpm_step_counter [OF s(1) Cons.prems(3), of rs] Cons.prems(4) rs(2) have
    lo: "- 2147483648 \<le> next_page_id bpm1"
    and hi: "next_page_id bpm1 + int (allocations rs) \<le> 2147483647"
    by simp_all
  from Cons.prems(5) s(1) have cs: "run_fetches_allocated cs bpm1" by simp
  from Cons.IH [OF s(2) res1 lo hi cs rs(1)] show ?case .
qed

subsection \<open>Dirty frames\<close>

lemma dirt_kept_refl: "dirt_kept bpm bpm"
  by (simp add: dirt_kept_def)

lemma dirt_kept_written: "dirt_kept bpm bpm' \<Longrightarrow> kept_or_written bpm bpm'"
  by (simp add: dirt_kept_def kept_or_written_def)

lemma page_update_dirt_kept:
  assumes "page_id pg = page_id (pages bpm ! i)" and "data pg = data (pages bpm ! i)"
    and "is_dirty (pages bpm ! i) \<longrightarrow> is_dirty pg"
  shows "dirt_kept bpm (bpm\<lparr> pages := (pages bpm)[i := pg] \<rparr>)"
    and "dirt_kept bpm (bpm\<lparr> pages := (pages bpm)[i := pg], replacer := r \<rparr>)"
proof -
  have "page_id ((pages bpm)[i := pg] ! j) = page_id (pages bpm ! j) \<and>
        data ((pages bpm)[i := pg] ! j) = data (pages bpm ! j) \<and>
        (is_dirty (pages bpm ! j) \<longrightarrow> is_dirty ((pages bpm)[i := pg] ! j))" for j
    using assms by (cases "i < length (pages bpm)"; cases "j = i") (simp_all add: list_update_beyond)
  then show "dirt_kept bpm (bpm\<lparr> pages := (pages bpm)[i := pg] \<rparr>)"
    and "dirt_kept bpm (bpm\<lparr> pages := (pages bpm)[i := pg], replacer := r \<rparr>)"
    by (simp_all add: dirt_kept_def)
qed

lemma UnpinPage_dirt_kept:
  assumes "UnpinPage pid dirty bpm = Inr (res, bpm')"
  shows "dirt_kept bpm bpm'"
  using assms
  by (auto simp: UnpinPage_def Let_def dirt_kept_refl page_update_dirt_kept
           split: option.splits if_splits sum.splits)

lemma FetchPage_pin_dirt_kept:
  assumes "FetchPage_pin v bpm = Inr (res, bpm')"
  shows "dirt_kept bpm bpm' \<and> disk_manager bpm' = disk_manager bpm"
  using assms
  by (auto simp: FetchPage_pin_def Let_def page_update_dirt_kept split: sum.splits)

text \<open>A step that rewrites one frame, after writing it out if it was dirty.\<close>

lemma one_frame_written:
  assumes sh: "shape_ok bpm" and v: "in_pool bpm v"
    and pages: "pages bpm' = (pages bpm)[nat v := pg]"
    and disk: "is_dirty (pages bpm ! nat v) \<longrightarrow>
                 disk_manager bpm' = disk_manager bpm @
                   [(page_id (pages bpm ! nat v), data (pages bpm ! nat v))]"
  shows "kept_or_written bpm bpm'"
  unfolding kept_or_written_def
proof (intro allI impI)
  fix f assume a: "in_pool bpm f \<and> is_dirty (pages bpm ! nat f)"
  have len: "nat v < length (pages bpm)" by (rule in_pool_length [OF sh v])
  have v0: "0 \<le> v" using v by (simp add: in_pool_def)
  have f0: "0 \<le> f" using a by (simp add: in_pool_def)
  show "(page_id (pages bpm' ! nat f) = page_id (pages bpm ! nat f) \<and>
         data (pages bpm' ! nat f) = data (pages bpm ! nat f) \<and>
         is_dirty (pages bpm' ! nat f)) \<or>
        (\<exists>ws. disk_manager bpm' = disk_manager bpm @ ws \<and>
              (page_id (pages bpm ! nat f), data (pages bpm ! nat f)) \<in> set ws)"
  proof (cases "f = v")
    case True
    with a disk show ?thesis by simp
  next
    case False
    with a show ?thesis by (simp add: pages nth_update_frame [OF f0 v0 len])
  qed
qed

lemma FlushPage_written:
  assumes inv: "bpm_inv bpm"
  shows "kept_or_written bpm (snd (FlushPage pid bpm))"
proof (cases "map_of (page_table bpm) pid")
  case None
  then show ?thesis by (simp add: FlushPage_def dirt_kept_written dirt_kept_refl)
next
  case (Some v)
  note v = table_okD [OF bpm_invD(2) [OF inv] Some]
  show ?thesis
    by (rule one_frame_written [OF bpm_invD(1) [OF inv] v(1)])
       (simp_all add: FlushPage_def Let_def Some WritePage_def v(2))
qed

lemma DeletePage_written:
  assumes inv: "bpm_inv bpm"
  shows "kept_or_written bpm (snd (DeletePage pid bpm))"
proof (cases "map_of (page_table bpm) pid")
  case None
  then show ?thesis by (simp add: DeletePage_def dirt_kept_written dirt_kept_refl)
next
  case (Some v)
  note v = table_okD [OF bpm_invD(2) [OF inv] Some]
  show ?thesis
  proof (cases "1 \<le> pin_count (pages bpm ! nat v)")
    case True
    then show ?thesis using Some
      by (simp add: DeletePage_def Let_def dirt_kept_written dirt_kept_refl)
  next
    case False
    show ?thesis
      by (rule one_frame_written [OF bpm_invD(1) [OF inv] v(1)])
         (simp_all add: DeletePage_def Let_def Some False WritePage_def v(2))
  qed
qed


lemma fold_FlushAllPages_body_written:
  "\<exists>ws. disk_manager (fold FlushAllPages_body es bpm) = disk_manager bpm @ ws \<and>
        (\<forall>i. page_id (pages (fold FlushAllPages_body es bpm) ! i) = page_id (pages bpm ! i) \<and>
             data (pages (fold FlushAllPages_body es bpm) ! i) = data (pages bpm ! i)) \<and>
        (\<forall>i. is_dirty (pages bpm ! i) \<and> \<not> is_dirty (pages (fold FlushAllPages_body es bpm) ! i) \<longrightarrow>
             (\<exists>p f. (p, f) \<in> set es \<and> nat f = i \<and> (p, data (pages bpm ! i)) \<in> set ws))"
proof (induction es arbitrary: bpm)
  case Nil
  show ?case by simp
next
  case (Cons e es)
  obtain p0 f0 where e: "e = (p0, f0)" by (cases e)
  define b1 where "b1 = FlushAllPages_body e bpm"
  have disk1: "disk_manager b1 = disk_manager bpm @ [(p0, data (pages bpm ! nat f0))]"
    by (simp add: b1_def e FlushAllPages_body_def Let_def WritePage_def)
  have pg1: "pages b1 = (pages bpm)[nat f0 := (pages bpm ! nat f0)\<lparr> is_dirty := False \<rparr>]"
    by (simp add: b1_def e FlushAllPages_body_def Let_def)
  have same1: "page_id (pages b1 ! i) = page_id (pages bpm ! i) \<and>
               data (pages b1 ! i) = data (pages bpm ! i) \<and>
               (is_dirty (pages bpm ! i) \<and> \<not> is_dirty (pages b1 ! i) \<longrightarrow> i = nat f0)" for i
    unfolding pg1
    by (cases "nat f0 < length (pages bpm)"; cases "i = nat f0") (simp_all add: list_update_beyond)
  from Cons.IH [of b1] obtain ws where
    ih: "disk_manager (fold FlushAllPages_body es b1) = disk_manager b1 @ ws"
      "\<And>i. page_id (pages (fold FlushAllPages_body es b1) ! i) = page_id (pages b1 ! i) \<and>
           data (pages (fold FlushAllPages_body es b1) ! i) = data (pages b1 ! i)"
      "\<And>i. is_dirty (pages b1 ! i) \<and> \<not> is_dirty (pages (fold FlushAllPages_body es b1) ! i) \<Longrightarrow>
           (\<exists>p f. (p, f) \<in> set es \<and> nat f = i \<and> (p, data (pages b1 ! i)) \<in> set ws)"
    by blast
  let ?b = "fold FlushAllPages_body (e # es) bpm"
  have fb: "?b = fold FlushAllPages_body es b1" by (simp add: b1_def)
  have d: "disk_manager ?b = disk_manager bpm @ ((p0, data (pages bpm ! nat f0)) # ws)"
    unfolding fb ih(1) disk1 by simp
  have c: "page_id (pages ?b ! i) = page_id (pages bpm ! i) \<and>
           data (pages ?b ! i) = data (pages bpm ! i)" for i
    unfolding fb using ih(2) [of i] same1 [of i] by simp
  have w: "\<exists>p f. (p, f) \<in> set (e # es) \<and> nat f = i \<and>
             (p, data (pages bpm ! i)) \<in> set ((p0, data (pages bpm ! nat f0)) # ws)"
    if a: "is_dirty (pages bpm ! i) \<and> \<not> is_dirty (pages ?b ! i)" for i
  proof (cases "is_dirty (pages b1 ! i)")
    case True
    with a have "is_dirty (pages b1 ! i) \<and> \<not> is_dirty (pages (fold FlushAllPages_body es b1) ! i)"
      unfolding fb by simp
    from ih(3) [OF this] obtain p f where
      "(p, f) \<in> set es" "nat f = i" "(p, data (pages b1 ! i)) \<in> set ws" by blast
    with same1 [of i] show ?thesis by auto
  next
    case False
    with a same1 [of i] have "i = nat f0" by simp
    then show ?thesis using e by auto
  qed
  from d c w show ?case by blast
qed

lemma FlushAllPages_written:
  assumes inv: "bpm_inv bpm"
  shows "kept_or_written bpm (FlushAllPages bpm)"
  unfolding kept_or_written_def
proof (intro allI impI)
  fix f assume a: "in_pool bpm f \<and> is_dirty (pages bpm ! nat f)"
  note sh = bpm_invD(1) [OF inv] and tb = bpm_invD(2) [OF inv]
  let ?b = "FlushAllPages bpm"
  from fold_FlushAllPages_body_written [of "page_table bpm" bpm] obtain ws where
    w: "disk_manager ?b = disk_manager bpm @ ws"
      "\<And>i. page_id (pages ?b ! i) = page_id (pages bpm ! i) \<and>
           data (pages ?b ! i) = data (pages bpm ! i)"
      "\<And>i. is_dirty (pages bpm ! i) \<and> \<not> is_dirty (pages ?b ! i) \<Longrightarrow>
           (\<exists>p g. (p, g) \<in> set (page_table bpm) \<and> nat g = i \<and> (p, data (pages bpm ! i)) \<in> set ws)"
    unfolding FlushAllPages_def by blast
  show "(page_id (pages ?b ! nat f) = page_id (pages bpm ! nat f) \<and>
         data (pages ?b ! nat f) = data (pages bpm ! nat f) \<and>
         is_dirty (pages ?b ! nat f)) \<or>
        (\<exists>ws. disk_manager ?b = disk_manager bpm @ ws \<and>
              (page_id (pages bpm ! nat f), data (pages bpm ! nat f)) \<in> set ws)"
  proof (cases "is_dirty (pages ?b ! nat f)")
    case True
    with w(2) [of "nat f"] show ?thesis by simp
  next
    case False
    with a w(3) [of "nat f"] obtain p g where
      g: "(p, g) \<in> set (page_table bpm)" "nat g = nat f" "(p, data (pages bpm ! nat f)) \<in> set ws"
      by blast
    have "distinct (map fst (page_table bpm))" using sh by (simp add: shape_ok_def)
    with g(1) have m: "map_of (page_table bpm) p = Some g" by simp
    note tg = table_okD [OF tb m]
    have "g = f" using tg(1) a g(2) unfolding in_pool_def by arith
    with tg(2) g(3) w(1) show ?thesis by auto
  qed
qed


text \<open>
  The frame that \<^verbatim>\<open>FindAndEvictFrame\<close> hands out was written if it was dirty; no other frame
  was touched.
\<close>

lemma FindAndEvictFrame_written:
  assumes inv: "bpm_inv bpm" and eq: "FindAndEvictFrame bpm = Inr (Some v, bpm1)"
  shows "in_pool bpm v"
    and "\<And>f. in_pool bpm f \<Longrightarrow> f \<noteq> v \<Longrightarrow> pages bpm1 ! nat f = pages bpm ! nat f"
    and "is_dirty (pages bpm ! nat v) \<Longrightarrow>
           disk_manager bpm1 = disk_manager bpm @
             [(page_id (pages bpm ! nat v), data (pages bpm ! nat v))]"
proof -
  note sh = bpm_invD(1) [OF inv] and fr = bpm_invD(3) [OF inv]
  from FindAndEvictFrame_cases [OF inv] eq consider
    (free) rest where "free_list bpm = v # rest" "bpm1 = bpm\<lparr> free_list := rest \<rparr>"
  | (evict) r' where "free_list bpm = []" "v \<in> set (evictable (replacer bpm))"
      "bpm1 = bpm\<lparr> replacer := r',
                  page_table := AList.delete (page_id (pages bpm ! nat v)) (page_table bpm),
                  disk_manager :=
                    (if is_dirty (pages bpm ! nat v)
                     then WritePage (page_id (pages bpm ! nat v)) (data (pages bpm ! nat v))
                            (disk_manager bpm)
                     else disk_manager bpm),
                  pages := (pages bpm)[nat v :=
                    ResetMemory ((if is_dirty (pages bpm ! nat v)
                                  then (pages bpm ! nat v)\<lparr> is_dirty := False \<rparr>
                                  else pages bpm ! nat v)\<lparr> page_id := INVALID_PAGE_ID \<rparr>)] \<rparr>"
    by auto
  then have all: "in_pool bpm v \<and>
      (\<forall>f. in_pool bpm f \<and> f \<noteq> v \<longrightarrow> pages bpm1 ! nat f = pages bpm ! nat f) \<and>
      (is_dirty (pages bpm ! nat v) \<longrightarrow>
           disk_manager bpm1 = disk_manager bpm @
             [(page_id (pages bpm ! nat v), data (pages bpm ! nat v))])"
  proof cases
    case free
    have v: "in_pool bpm v" using sh free(1) by (simp add: shape_ok_def)
    from frame_okD(3) [OF fr [OF v]] free(1) have "\<not> is_dirty (pages bpm ! nat v)" by simp
    with v free(2) show ?thesis by simp
  next
    case evict
    have v: "in_pool bpm v" using sh evict(2) by (simp add: shape_ok_def)
    have len: "nat v < length (pages bpm)" by (rule in_pool_length [OF sh v])
    have v0: "0 \<le> v" using v by (simp add: in_pool_def)
    have "pages bpm1 ! nat f = pages bpm ! nat f" if "in_pool bpm f \<and> f \<noteq> v" for f
    proof -
      from that have "0 \<le> f" by (simp add: in_pool_def)
      from nth_update_frame [OF this v0 len] that show ?thesis by (simp add: evict(3))
    qed
    with v show ?thesis by (simp add: evict(3) WritePage_def)
  qed
  from all show "in_pool bpm v" by blast
  from all show "\<And>f. in_pool bpm f \<Longrightarrow> f \<noteq> v \<Longrightarrow> pages bpm1 ! nat f = pages bpm ! nat f"
    by blast
  from all show "is_dirty (pages bpm ! nat v) \<Longrightarrow>
           disk_manager bpm1 = disk_manager bpm @
             [(page_id (pages bpm ! nat v), data (pages bpm ! nat v))]"
    by blast
qed

lemma take_frame_written:
  assumes inv: "bpm_inv bpm" and eq: "FindAndEvictFrame bpm = Inr (Some v, bpm1)"
    and disk: "disk_manager bpm' = disk_manager bpm1"
    and rest: "\<And>f. in_pool bpm f \<Longrightarrow> f \<noteq> v \<Longrightarrow> pages bpm' ! nat f = pages bpm1 ! nat f"
  shows "kept_or_written bpm bpm'"
  unfolding kept_or_written_def
proof (intro allI impI)
  fix f assume a: "in_pool bpm f \<and> is_dirty (pages bpm ! nat f)"
  note fe = FindAndEvictFrame_written [OF inv eq]
  show "(page_id (pages bpm' ! nat f) = page_id (pages bpm ! nat f) \<and>
         data (pages bpm' ! nat f) = data (pages bpm ! nat f) \<and>
         is_dirty (pages bpm' ! nat f)) \<or>
        (\<exists>ws. disk_manager bpm' = disk_manager bpm @ ws \<and>
              (page_id (pages bpm ! nat f), data (pages bpm ! nat f)) \<in> set ws)"
  proof (cases "f = v")
    case True
    with a fe(3) disk show ?thesis by simp
  next
    case False
    with a rest [of f] fe(2) [of f] show ?thesis by simp
  qed
qed

lemma NewPage_written:
  assumes inv: "bpm_inv bpm" and eq: "NewPage bpm = Inr (r, bpm')"
  shows "kept_or_written bpm bpm'"
proof -
  from NewPage_fields [OF eq] show ?thesis
  proof
    assume "r = None \<and> FindAndEvictFrame bpm = Inr (None, bpm')"
    with FindAndEvictFrame_None [OF inv] have "bpm' = bpm" by blast
    then show ?thesis by (simp add: dirt_kept_written dirt_kept_refl)
  next
    assume "\<exists>v bpm1. FindAndEvictFrame bpm = Inr (Some v, bpm1) \<and>
            r = Some (next_page_id bpm1, v) \<and>
            page_table bpm' = AList.update (next_page_id bpm1) v (page_table bpm1) \<and>
            free_list bpm' = free_list bpm1 \<and> pool_size bpm' = pool_size bpm1 \<and>
            next_page_id bpm' = wrap_page_id (next_page_id bpm1 + 1) \<and>
            disk_manager bpm' = disk_manager bpm1 \<and>
            pages bpm' = (pages bpm1)[nat v :=
              ResetMemory ((pages bpm1 ! nat v)\<lparr> page_id := next_page_id bpm1, pin_count := 1 \<rparr>)]"
    then obtain v bpm1 where f: "FindAndEvictFrame bpm = Inr (Some v, bpm1)"
      and disk: "disk_manager bpm' = disk_manager bpm1"
      and pg: "pages bpm' = (pages bpm1)[nat v :=
              ResetMemory ((pages bpm1 ! nat v)\<lparr> page_id := next_page_id bpm1, pin_count := 1 \<rparr>)]"
      by blast
    have v0: "0 \<le> v" using FindAndEvictFrame_written(1) [OF inv f] by (simp add: in_pool_def)
    have "pages bpm' ! nat g = pages bpm1 ! nat g" if "in_pool bpm g" "g \<noteq> v" for g
    proof -
      from that have "nat g \<noteq> nat v" using v0 unfolding in_pool_def by arith
      then show ?thesis by (simp add: pg)
    qed
    then show ?thesis by (intro take_frame_written [OF inv f disk])
  qed
qed

lemma FetchPage_pin_pages:
  assumes "FetchPage_pin v bpm = Inr (res, bpm')"
  shows "disk_manager bpm' = disk_manager bpm"
    and "pages bpm' = (pages bpm)[nat v :=
           (pages bpm ! nat v)\<lparr> pin_count := pin_count (pages bpm ! nat v) + 1 \<rparr>]"
  using assms by (auto simp: FetchPage_pin_def Let_def split: sum.splits)

lemma FetchPage_written:
  assumes inv: "bpm_inv bpm" and eq: "FetchPage pid bpm = Inr (r, bpm')"
  shows "kept_or_written bpm bpm'"
proof (cases "map_of (page_table bpm) pid")
  case (Some v)
  with eq have "FetchPage_pin v bpm = Inr (r, bpm')" by (simp add: FetchPage_def)
  from FetchPage_pin_dirt_kept [OF this] show ?thesis by (simp add: dirt_kept_written)
next
  case None
  show ?thesis
  proof (cases "FindAndEvictFrame bpm")
    case (Inl e)
    with eq None show ?thesis by (simp add: FetchPage_def)
  next
    case (Inr x)
    obtain fr bpm1 where x: "x = (fr, bpm1)" by (cases x)
    show ?thesis
    proof (cases fr)
      case N: None
      with Inr x FindAndEvictFrame_None [OF inv] have "bpm1 = bpm" by simp
      with eq None Inr x N have "bpm' = bpm" by (simp add: FetchPage_def)
      then show ?thesis by (simp add: dirt_kept_written dirt_kept_refl)
    next
      case (Some v)
      define b where "b = bpm1\<lparr> pages := (pages bpm1)[nat v := (pages bpm1 ! nat v)
              \<lparr> data := ReadPage pid (disk_manager bpm1), page_id := pid, pin_count := 0 \<rparr>],
            page_table := AList.update pid v (page_table bpm1) \<rparr>"
      from Inr x Some have f: "FindAndEvictFrame bpm = Inr (Some v, bpm1)" by simp
      with eq None have pin: "FetchPage_pin v b = Inr (r, bpm')"
        by (simp add: FetchPage_def Let_def b_def)
      note pp = FetchPage_pin_pages [OF pin]
      have disk: "disk_manager bpm' = disk_manager bpm1" by (simp add: pp(1) b_def)
      have v0: "0 \<le> v" using FindAndEvictFrame_written(1) [OF inv f] by (simp add: in_pool_def)
      have "pages bpm' ! nat g = pages bpm1 ! nat g" if "in_pool bpm g" "g \<noteq> v" for g
      proof -
        from that have "nat g \<noteq> nat v" using v0 unfolding in_pool_def by arith
        then show ?thesis by (simp add: pp(2) b_def)
      qed
      then show ?thesis by (intro take_frame_written [OF inv f disk])
    qed
  qed
qed

lemma bpm_step_written:
  assumes inv: "bpm_inv bpm" and s: "bpm_step c bpm = Inr (r, bpm')"
    and c: "\<forall>pid bytes. c \<noteq> CallerWrites pid bytes"
  shows "kept_or_written bpm bpm'"
proof (cases c)
  case CallNewPage
  with s obtain x where "NewPage bpm = Inr (x, bpm')" by (auto split: sum.splits)
  from NewPage_written [OF inv this] show ?thesis .
next
  case (CallFetchPage pid)
  with s obtain x where "FetchPage pid bpm = Inr (x, bpm')" by (auto split: sum.splits)
  from FetchPage_written [OF inv this] show ?thesis .
next
  case (CallUnpinPage pid dirty)
  with s obtain x where "UnpinPage pid dirty bpm = Inr (x, bpm')" by (auto split: sum.splits)
  from UnpinPage_dirt_kept [OF this] show ?thesis by (rule dirt_kept_written)
next
  case (CallFlushPage pid)
  with s have "bpm' = snd (FlushPage pid bpm)" by (auto split: prod.splits)
  with FlushPage_written [OF inv, of pid] show ?thesis by simp
next
  case CallFlushAllPages
  with s have "bpm' = FlushAllPages bpm" by simp
  with FlushAllPages_written [OF inv] show ?thesis by simp
next
  case (CallDeletePage pid)
  with s have "bpm' = snd (DeletePage pid bpm)" by (auto split: prod.splits)
  with DeletePage_written [OF inv, of pid] show ?thesis by simp
next
  case (CallerWrites pid bytes)
  with c show ?thesis by simp
qed


lemma bpm_run_reaches_inv:
  assumes "0 < k"
    and "bpm_run cs (BufferPoolManager_new n disk k) = Inr (ress, bpm)"
  shows "bpm_inv bpm"
proof -
  from bpm_run_inv [OF bpm_inv_new [OF assms(1), of n disk], of cs] obtain x where
    "bpm_run cs (BufferPoolManager_new n disk k) = Inr x" "bpm_inv (snd x)" by blast
  with assms(2) show ?thesis by simp
qed

text \<open>
  Claim C5.  Take a fresh pool with a replacer of depth at least 1.  In every state \<open>bpm\<close>
  that a run of calls reaches, the next call \<open>c\<close> returns, and:

  \<^item> if \<open>c\<close> is a call to the manager, every frame that held a dirty page before the call
    either still holds the same page id and bytes and is still dirty, or the manager wrote
    that page id with those bytes to disk during the call: nothing dirty is overwritten,
    reset or marked clean without the write;

  \<^item> if moreover the callers only fetch page ids that \<^verbatim>\<open>NewPage\<close> has handed out, and
    fewer than \<open>2\<^sup>3\<^sup>1\<close> pages were allocated before (the 32-bit counter of page ids has
    not wrapped), every page that was resident and dirty before the call and is not
    resident after it (evicted by \<^verbatim>\<open>FindAndEvictFrame\<close> or deleted by \<^verbatim>\<open>DeletePage\<close>) was
    written to disk during the call, with the bytes its frame held before the call.
\<close>

theorem dirty_page_written_back:
  assumes "0 < replacer_k"
    and "bpm_run cs (BufferPoolManager_new n disk replacer_k) = Inr (ress, bpm)"
  shows "\<exists>r bpm'.
           bpm_step c bpm = Inr (r, bpm') \<and>
           ((\<forall>pid bytes. c \<noteq> CallerWrites pid bytes) \<longrightarrow>
              (\<forall>f. 0 \<le> f \<and> f < int (pool_size bpm) \<and> is_dirty (pages bpm ! nat f) \<longrightarrow>
                 (page_id (pages bpm' ! nat f) = page_id (pages bpm ! nat f) \<and>
                  data (pages bpm' ! nat f) = data (pages bpm ! nat f) \<and>
                  is_dirty (pages bpm' ! nat f)) \<or>
                 (\<exists>ws. disk_manager bpm' = disk_manager bpm @ ws \<and>
                       (page_id (pages bpm ! nat f), data (pages bpm ! nat f)) \<in> set ws))) \<and>
           (run_fetches_allocated cs (BufferPoolManager_new n disk replacer_k) \<and>
            fetches_allocated c bpm \<and> allocations ress < 2147483648 \<longrightarrow>
              (\<forall>p f. map_of (page_table bpm) p = Some f \<and> is_dirty (pages bpm ! nat f) \<and>
                     map_of (page_table bpm') p = None \<longrightarrow>
                 (\<exists>ws. disk_manager bpm' = disk_manager bpm @ ws \<and>
                       (p, data (pages bpm ! nat f)) \<in> set ws)))"
proof -
  note inv = bpm_run_reaches_inv [OF assms]
  from bpm_step_inv [OF inv, of c] obtain r bpm' where
    s: "bpm_step c bpm = Inr (r, bpm')" by auto
  have d: "kept_or_written bpm bpm'" if "\<forall>pid bytes. c \<noteq> CallerWrites pid bytes"
    by (rule bpm_step_written [OF inv s that])
  have w: "written_back bpm bpm'"
    if a: "run_fetches_allocated cs (BufferPoolManager_new n disk replacer_k) \<and>
           fetches_allocated c bpm \<and> allocations ress < 2147483648"
  proof -
    let ?new = "BufferPoolManager_new n disk replacer_k"
    have lo: "- 2147483648 \<le> next_page_id ?new"
      and hi: "next_page_id ?new + int (allocations ress) \<le> 2147483647"
      using a by (simp_all add: BufferPoolManager_new_def)
    from a have ok: "run_fetches_allocated cs ?new" by simp
    from bpm_run_resident [OF bpm_inv_new [OF assms(1)] resident_ok_new lo hi ok assms(2)]
    have res: "resident_ok bpm" by simp
    from a have "fetches_allocated c bpm" by simp
    from bpm_step_resident [OF inv res this] obtain r1 b1 where
      "bpm_step c bpm = Inr (r1, b1)" "written_back bpm b1" by blast
    with s show ?thesis by simp
  qed
  from s d w show ?thesis
    unfolding kept_or_written_def written_back_def in_pool_def by blast
qed

theorem dirty_page_written_back_witness:
  "\<exists>ress bpm r bpm'.
     bpm_run [CallNewPage, CallerWrites 0 [1, 2, 3], CallUnpinPage 0 True]
       (BufferPoolManager_new 1 [] 2) = Inr (ress, bpm) \<and>
     bpm_step CallNewPage bpm = Inr (r, bpm') \<and>
     r = NewPageReturned (Some (1, 0)) \<and>
     map_of (page_table bpm) 0 = Some 0 \<and> is_dirty (pages bpm ! nat 0) \<and>
     page_id (pages bpm ! nat 0) = 0 \<and> data (pages bpm ! nat 0) = [1, 2, 3] \<and>
     map_of (page_table bpm') 0 = None \<and> page_id (pages bpm' ! nat 0) = 1 \<and>
     (\<exists>ws. disk_manager bpm' = disk_manager bpm @ ws \<and> (0, data (pages bpm ! nat 0)) \<in> set ws) \<and>
     (\<exists>ws. disk_manager bpm' = disk_manager bpm @ ws \<and>
           (page_id (pages bpm ! nat 0), data (pages bpm ! nat 0)) \<in> set ws)"
proof -
  let ?cs = "[CallNewPage, CallerWrites 0 [1, 2, 3], CallUnpinPage 0 True]"
  let ?new = "BufferPoolManager_new 1 [] 2"
  have k: "0 < (2::nat)" by simp
  have ok: "run_fetches_allocated ?cs ?new" by (simp add: bpm_eval)
  obtain rs st where run: "bpm_run ?cs ?new = Inr (rs, st)"
    and one: "allocations rs = 1"
    and st: "map_of (page_table st) 0 = Some 0" "is_dirty (pages st ! nat 0)"
      "data (pages st ! nat 0) = [1, 2, 3]" "page_id (pages st ! nat 0) = 0"
      "(0::int) \<le> 0 \<and> 0 < int (pool_size st)"
    and nx: "\<exists>st'. bpm_step CallNewPage st = Inr (NewPageReturned (Some (1, 0)), st') \<and>
                   map_of (page_table st') 0 = None \<and> page_id (pages st' ! nat 0) = 1"
    by (simp add: bpm_eval allocations_def)
  from one have few: "allocations rs < 2147483648" by simp
  from nx obtain st' where step: "bpm_step CallNewPage st = Inr (NewPageReturned (Some (1, 0)), st')"
    and gone: "map_of (page_table st') 0 = None" "page_id (pages st' ! nat 0) = 1" by blast
  have c: "fetches_allocated CallNewPage st" by simp
  have nw: "\<forall>pid bytes. CallNewPage \<noteq> CallerWrites pid bytes" by simp
  from dirty_page_written_back [OF k run, of CallNewPage] obtain r bpm' where
    s: "bpm_step CallNewPage st = Inr (r, bpm')"
    and d: "(\<forall>pid bytes. CallNewPage \<noteq> CallerWrites pid bytes) \<longrightarrow>
              (\<forall>f. 0 \<le> f \<and> f < int (pool_size st) \<and> is_dirty (pages st ! nat f) \<longrightarrow>
                 (page_id (pages bpm' ! nat f) = page_id (pages st ! nat f) \<and>
                  data (pages bpm' ! nat f) = data (pages st ! nat f) \<and>
                  is_dirty (pages bpm' ! nat f)) \<or>
                 (\<exists>ws. disk_manager bpm' = disk_manager st @ ws \<and>
                       (page_id (pages st ! nat f), data (pages st ! nat f)) \<in> set ws))"
    and w: "run_fetches_allocated ?cs ?new \<and> fetches_allocated CallNewPage st \<and>
            allocations rs < 2147483648 \<longrightarrow>
              (\<forall>p f. map_of (page_table st) p = Some f \<and> is_dirty (pages st ! nat f) \<and>
                     map_of (page_table bpm') p = None \<longrightarrow>
                 (\<exists>ws. disk_manager bpm' = disk_manager st @ ws \<and>
                       (p, data (pages st ! nat f)) \<in> set ws))"
    by blast
  from s [symmetric] step have "(Inr (r, bpm') :: error + bpm_return \<times> BufferPoolManager) =
      Inr (NewPageReturned (Some (1, 0)), st')" by (rule trans)
  then have e: "r = NewPageReturned (Some (1, 0))" "bpm' = st'" by simp_all
  have g: "map_of (page_table bpm') 0 = None" "page_id (pages bpm' ! nat 0) = 1"
    using gone e(2) by simp_all
  from w ok c few st(1,2) g(1)
  have a: "\<exists>ws. disk_manager bpm' = disk_manager st @ ws \<and> (0, data (pages st ! nat 0)) \<in> set ws"
    by blast
  from d nw st(5) st(2) have
    "(page_id (pages bpm' ! nat 0) = page_id (pages st ! nat 0) \<and>
      data (pages bpm' ! nat 0) = data (pages st ! nat 0) \<and> is_dirty (pages bpm' ! nat 0)) \<or>
     (\<exists>ws. disk_manager bpm' = disk_manager st @ ws \<and>
           (page_id (pages st ! nat 0), data (pages st ! nat 0)) \<in> set ws)"
    by blast
  with g(2) st(4) have b: "\<exists>ws. disk_manager bpm' = disk_manager st @ ws \<and>
           (page_id (pages st ! nat 0), data (pages st ! nat 0)) \<in> set ws"
    by simp
  show ?thesis
    apply (rule exI [of _ rs], rule exI [of _ st], rule exI [of _ r], rule exI [of _ bpm'])
    apply (intro conjI)
              apply (rule run)
             apply (rule s)
            apply (rule e(1))
           apply (rule st(1))
          apply (rule st(2))
         apply (rule st(4))
        apply (rule st(3))
       apply (rule g(1))
      apply (rule g(2))
     apply (rule a)
    apply (rule b)
    done
qed

end
